theory Spec2Isabelle
  imports
    Main
    "HOL-Library.AList"
    "HOL-Library.Char_ord"
    "HOL-Library.List_Lexorder"
begin

section \<open>Strings of the Go standard library\<close>

text \<open>
  A Go string is a sequence of bytes; \<^typ>\<open>string\<close> is a list of 8-bit characters.
  \<open>sort.Strings\<close> orders strings bytewise and lexicographically, which is the order of
  \<^typ>\<open>char list\<close> here, so \<^const>\<open>sort\<close> stands for it.
\<close>

text \<open>\<open>strings.Split(s, " ")\<close>: the pieces of \<open>s\<close> between single spaces; never empty.\<close>

fun Split :: "string \<Rightarrow> string list" where
  "Split [] = [[]]"
| "Split (c # cs) =
     (if c = CHR '' '' then [] # Split cs
      else (case Split cs of [] \<Rightarrow> [[c]] | w # ws \<Rightarrow> (c # w) # ws))"

text \<open>\<open>strings.Join(xs, " ")\<close>.\<close>

fun Join :: "string list \<Rightarrow> string" where
  "Join [] = []"
| "Join [x] = x"
| "Join (x # y # ys) = x @ CHR '' '' # Join (y # ys)"

text \<open>\<open>strings.HasPrefix(s, p)\<close> and \<open>strings.Contains(s, "=")\<close>.\<close>

definition HasPrefix :: "string \<Rightarrow> string \<Rightarrow> bool" where
  "HasPrefix s p = (take (length p) s = p)"

definition ContainsEq :: "string \<Rightarrow> bool" where
  "ContainsEq s = (CHR ''='' \<in> set s)"

section \<open>Flags and flag sets (the pflag collaborator)\<close>

text \<open>
  A \<open>*flag.Flag\<close> is an address into a heap of flag records, so that two flag sets can
  hold the same flag and a change through one is seen through the other.
\<close>

type_synonym faddr = nat

record Flag =
  Name :: string
  Shorthand :: string
  NoOptDefVal :: string
  Changed :: bool
  Hidden :: bool
  Annotations :: "string \<rightharpoonup> string list"

type_synonym flag_heap = "faddr \<Rightarrow> Flag"

text \<open>
  A flag set lists its flags in the order they were added; \<open>SortFlags\<close> (true by default
  in pflag) makes \<open>VisitAll\<close> go through them by name instead.
\<close>

record FlagSet =
  formal :: "faddr list"
  SortFlags :: bool

definition Lookup :: "flag_heap \<Rightarrow> FlagSet \<Rightarrow> string \<Rightarrow> faddr option" where
  "Lookup h fs name = find (\<lambda>a. Name (h a) = name) (formal fs)"

definition ShorthandLookup :: "flag_heap \<Rightarrow> FlagSet \<Rightarrow> string \<Rightarrow> faddr option" where
  "ShorthandLookup h fs name =
     (if name = [] then None else find (\<lambda>a. Shorthand (h a) = name) (formal fs))"

definition VisitAll :: "flag_heap \<Rightarrow> FlagSet \<Rightarrow> faddr list" where
  "VisitAll h fs =
     (if SortFlags fs then sort_key (\<lambda>a. Name (h a)) (formal fs) else formal fs)"

text \<open>\<open>SetAnnotation\<close> fails on a name the set does not hold, and replaces the values
  under the key otherwise.\<close>

datatype error =
    NoSuchFlag string
  | RequiredTogetherError string "string list"
  | OneRequiredError string
  | MutuallyExclusiveError string "string list"
  | FlagDoesNotExist string
  | FlagAlreadyRegistered string
  | UnknownCommand string string string
  | ParseError string
  | NilDereference

definition SetAnnotation ::
  "flag_heap \<Rightarrow> FlagSet \<Rightarrow> string \<Rightarrow> string \<Rightarrow> string list \<Rightarrow> error option \<times> flag_heap" where
  "SetAnnotation h fs name key vals =
     (case Lookup h fs name of
        None \<Rightarrow> (Some (NoSuchFlag name), h)
      | Some a \<Rightarrow>
          (None, h(a := (h a)\<lparr>Annotations := (Annotations (h a))(key \<mapsto> vals)\<rparr>)))"

section \<open>Flag groups (flag\_groups.go)\<close>

definition requiredAsGroupAnnotation :: string where
  "requiredAsGroupAnnotation = ''cobra_annotation_required_if_others_set''"

definition oneRequiredAnnotation :: string where
  "oneRequiredAnnotation = ''cobra_annotation_one_required''"

definition mutuallyExclusiveAnnotation :: string where
  "mutuallyExclusiveAnnotation = ''cobra_annotation_mutually_exclusive''"

text \<open>
  The status tables are Go maps that the code ranges over. A map is an association list
  with one entry per key (\<^const>\<open>AList.update\<close> keeps it so); Go leaves the order of
  \<open>range\<close> open, the model ranges in list order, and the validators sort what they
  collected before they use it.
\<close>

type_synonym status = "(string \<times> bool) list"
type_synonym groupStatus = "(string \<times> status) list"

fun hasAllFlags :: "flag_heap \<Rightarrow> FlagSet \<Rightarrow> string list \<Rightarrow> bool" where
  "hasAllFlags h fs [] = True"
| "hasAllFlags h fs (fname # rest) =
     (case Lookup h fs fname of None \<Rightarrow> False | Some f \<Rightarrow> hasAllFlags h fs rest)"

text \<open>The inner loop that enters every name of a new group as unset.\<close>

fun initStatus :: "string list \<Rightarrow> status \<Rightarrow> status" where
  "initStatus [] st = st"
| "initStatus (name # rest) st = initStatus rest (AList.update name False st)"

text \<open>The loop over the groups one flag is annotated with.\<close>

fun processGroups ::
  "flag_heap \<Rightarrow> FlagSet \<Rightarrow> Flag \<Rightarrow> string list \<Rightarrow> groupStatus \<Rightarrow> groupStatus" where
  "processGroups h flags pflag [] gs = gs"
| "processGroups h flags pflag (grp # rest) gs =
     (case map_of gs grp of
        None \<Rightarrow>
          (let flagnames = Split grp in
           if \<not> hasAllFlags h flags flagnames then processGroups h flags pflag rest gs
           else processGroups h flags pflag rest
                  (AList.update grp
                     (AList.update (Name pflag) (Changed pflag) (initStatus flagnames [])) gs))
      | Some st \<Rightarrow>
          processGroups h flags pflag rest
            (AList.update grp (AList.update (Name pflag) (Changed pflag) st) gs))"

definition processFlagGroupAnnotation ::
  "flag_heap \<Rightarrow> FlagSet \<Rightarrow> Flag \<Rightarrow> string \<Rightarrow> groupStatus \<Rightarrow> groupStatus" where
  "processFlagGroupAnnotation h flags pflag annotation gs =
     (case Annotations pflag annotation of
        None \<Rightarrow> gs
      | Some groupInfo \<Rightarrow> processGroups h flags pflag groupInfo gs)"

definition sortedKeys :: "groupStatus \<Rightarrow> string list" where
  "sortedKeys m = sort (map fst m)"

text \<open>\<open>data[flagList]\<close>: the nil map, which has no entry, for a key that is not there.\<close>

definition statusOf :: "groupStatus \<Rightarrow> string \<Rightarrow> status" where
  "statusOf data flagList = (case map_of data flagList of None \<Rightarrow> [] | Some st \<Rightarrow> st)"

definition unsetNames :: "status \<Rightarrow> string list" where
  "unsetNames st = map fst (filter (\<lambda>(flagname, isSet). \<not> isSet) st)"

definition setNames :: "status \<Rightarrow> string list" where
  "setNames st = map fst (filter (\<lambda>(flagname, isSet). isSet) st)"

fun validateRequireLoop :: "groupStatus \<Rightarrow> string list \<Rightarrow> error option" where
  "validateRequireLoop data [] = None"
| "validateRequireLoop data (flagList # keys) =
     (let flagnameAndStatus = statusOf data flagList;
          unset = unsetNames flagnameAndStatus
      in if length unset = length flagnameAndStatus \<or> length unset = 0
         then validateRequireLoop data keys
         else Some (RequiredTogetherError flagList (sort unset)))"

definition validateRequireFlagGroups :: "groupStatus \<Rightarrow> error option" where
  "validateRequireFlagGroups data = validateRequireLoop data (sortedKeys data)"

fun validateOneRequiredLoop :: "groupStatus \<Rightarrow> string list \<Rightarrow> error option" where
  "validateOneRequiredLoop data [] = None"
| "validateOneRequiredLoop data (flagList # keys) =
     (let flagnameAndStatus = statusOf data flagList;
          sel = setNames flagnameAndStatus
      in if length sel \<ge> 1
         then validateOneRequiredLoop data keys
         else Some (OneRequiredError flagList))"

definition validateOneRequiredFlagGroups :: "groupStatus \<Rightarrow> error option" where
  "validateOneRequiredFlagGroups data = validateOneRequiredLoop data (sortedKeys data)"

fun validateExclusiveLoop :: "groupStatus \<Rightarrow> string list \<Rightarrow> error option" where
  "validateExclusiveLoop data [] = None"
| "validateExclusiveLoop data (flagList # keys) =
     (let flagnameAndStatus = statusOf data flagList;
          sel = setNames flagnameAndStatus
      in if length sel = 0 \<or> length sel = 1
         then validateExclusiveLoop data keys
         else Some (MutuallyExclusiveError flagList (sort sel)))"

definition validateExclusiveFlagGroups :: "groupStatus \<Rightarrow> error option" where
  "validateExclusiveFlagGroups data = validateExclusiveLoop data (sortedKeys data)"

text \<open>
  The three tables after the visit. \<open>ValidateFlagGroups\<close> hands every visited flag to
  \<open>processFlagGroupAnnotation\<close> once per annotation kind, each kind with its own table.
\<close>

fun visitGroups ::
  "flag_heap \<Rightarrow> FlagSet \<Rightarrow> faddr list \<Rightarrow> groupStatus \<times> groupStatus \<times> groupStatus
     \<Rightarrow> groupStatus \<times> groupStatus \<times> groupStatus" where
  "visitGroups h flags [] tabs = tabs"
| "visitGroups h flags (a # rest) (groupStatus, oneRequiredGroupStatus, mutuallyExclusiveGroupStatus) =
     visitGroups h flags rest
       (processFlagGroupAnnotation h flags (h a) requiredAsGroupAnnotation groupStatus,
        processFlagGroupAnnotation h flags (h a) oneRequiredAnnotation oneRequiredGroupStatus,
        processFlagGroupAnnotation h flags (h a) mutuallyExclusiveAnnotation
          mutuallyExclusiveGroupStatus)"


section \<open>Commands (command.go)\<close>

text \<open>
  A \<open>*Command\<close> is an address into a heap of command records. Of the hooks only
  whether they are set matters here: \<open>Run\<close> and \<open>RunE\<close> say whether the field is not nil.
  \<open>flags\<close> is what \<open>c.Flags()\<close> returns; \<open>mergePersistentFlags\<close> is not among the
  sources, and the set is taken as it stands after the merge. \<open>args\<close> is \<open>None\<close> for nil.
\<close>

type_synonym caddr = nat

record Command =
  Use :: string
  Aliases :: "string list"
  SuggestFor :: "string list"
  Deprecated :: string
  cmdAnnotations :: "string \<rightharpoonup> string"
  Run :: bool
  RunE :: bool
  args :: "string list option"
  flags :: FlagSet
  helpCommand :: "caddr option"
  commandCalledAs_name :: string
  commandCalledAs_called :: bool
  commands :: "caddr list"
  parent :: "caddr option"
  cmdHidden :: bool
  DisableFlagParsing :: bool
  DisableSuggestions :: bool
  SuggestionsMinimumDistance :: int

type_synonym cmd_heap = "caddr \<Rightarrow> Command"

subsection \<open>Declaring and validating flag groups\<close>

text \<open>
  The three \<open>MarkFlags...\<close> functions differ in the annotation key only. A panic is the
  \<open>Inl\<close> result. \<open>f.Annotations[key]\<close> of a key that is not there is the nil slice.
\<close>

definition annotationOf :: "Flag \<Rightarrow> string \<Rightarrow> string list" where
  "annotationOf f key = (case Annotations f key of None \<Rightarrow> [] | Some vs \<Rightarrow> vs)"

fun markFlagGroup ::
  "flag_heap \<Rightarrow> FlagSet \<Rightarrow> string \<Rightarrow> string list \<Rightarrow> string list \<Rightarrow> error + flag_heap" where
  "markFlagGroup h fs key flagNames [] = Inr h"
| "markFlagGroup h fs key flagNames (v # rest) =
     (case Lookup h fs v of
        None \<Rightarrow> Inl (NoSuchFlag v)
      | Some f \<Rightarrow>
          (case SetAnnotation h fs v key (annotationOf (h f) key @ [Join flagNames]) of
             (Some err, h') \<Rightarrow> Inl err
           | (None, h') \<Rightarrow> markFlagGroup h' fs key flagNames rest))"

definition MarkFlagsRequiredTogether :: "flag_heap \<Rightarrow> Command \<Rightarrow> string list \<Rightarrow> error + flag_heap" where
  "MarkFlagsRequiredTogether h c flagNames =
     markFlagGroup h (flags c) requiredAsGroupAnnotation flagNames flagNames"

definition MarkFlagsOneRequired :: "flag_heap \<Rightarrow> Command \<Rightarrow> string list \<Rightarrow> error + flag_heap" where
  "MarkFlagsOneRequired h c flagNames =
     markFlagGroup h (flags c) oneRequiredAnnotation flagNames flagNames"

definition MarkFlagsMutuallyExclusive :: "flag_heap \<Rightarrow> Command \<Rightarrow> string list \<Rightarrow> error + flag_heap" where
  "MarkFlagsMutuallyExclusive h c flagNames =
     markFlagGroup h (flags c) mutuallyExclusiveAnnotation flagNames flagNames"

text \<open>
  \<open>ValidateFlagGroups\<close> starts its visit with \<open>flag.VisitAll\<close>: the function of the flag
  package, which goes through the package's default set \<open>CommandLine\<close>, whereas the
  local \<open>flags\<close>, the command's own set, is what \<open>hasAllFlags\<close> looks names up in.
  \<open>CommandLine\<close> is a variable of the flag package and so a parameter here.
\<close>

definition groupTables ::
  "flag_heap \<Rightarrow> FlagSet \<Rightarrow> faddr list \<Rightarrow> groupStatus \<times> groupStatus \<times> groupStatus" where
  "groupTables h fs visited = visitGroups h fs visited ([], [], [])"

definition ValidateFlagGroups :: "flag_heap \<Rightarrow> FlagSet \<Rightarrow> Command \<Rightarrow> error option" where
  "ValidateFlagGroups h CommandLine c =
     (if DisableFlagParsing c then None
      else
        (case groupTables h (flags c) (VisitAll h CommandLine) of
           (groupStatus, oneRequiredGroupStatus, mutuallyExclusiveGroupStatus) \<Rightarrow>
             (case validateRequireFlagGroups groupStatus of
                Some err \<Rightarrow> Some err
              | None \<Rightarrow>
                  (case validateOneRequiredFlagGroups oneRequiredGroupStatus of
                     Some err \<Rightarrow> Some err
                   | None \<Rightarrow>
                       (case validateExclusiveFlagGroups mutuallyExclusiveGroupStatus of
                          Some err \<Rightarrow> Some err
                        | None \<Rightarrow> None)))))"


text \<open>The group an error of the validator is about.\<close>

definition errorGroup :: "error \<Rightarrow> string option" where
  "errorGroup e =
     (case e of
        RequiredTogetherError g u \<Rightarrow> Some g
      | OneRequiredError g \<Rightarrow> Some g
      | MutuallyExclusiveError g u \<Rightarrow> Some g
      | _ \<Rightarrow> None)"

subsection \<open>Zero values, for the examples\<close>

definition newFlag :: "string \<Rightarrow> Flag" where
  "newFlag name = \<lparr>Name = name, Shorthand = [], NoOptDefVal = [], Changed = False,
     Hidden = False, Annotations = Map.empty\<rparr>"

definition newFlagSet :: "faddr list \<Rightarrow> FlagSet" where
  "newFlagSet as = \<lparr>formal = as, SortFlags = True\<rparr>"

definition newCommand :: "string \<Rightarrow> Command" where
  "newCommand use = \<lparr>Use = use, Aliases = [], SuggestFor = [], Deprecated = [],
     cmdAnnotations = Map.empty, Run = False, RunE = False, args = None,
     flags = newFlagSet [], helpCommand = None, commandCalledAs_name = [],
     commandCalledAs_called = False, commands = [], parent = None, cmdHidden = False,
     DisableFlagParsing = False, DisableSuggestions = False, SuggestionsMinimumDistance = 0\<rparr>"

text \<open>A command whose only flag \<open>a\<close> was changed and belongs to the group \<open>a b\<close>.\<close>

definition skipHeap :: flag_heap where
  "skipHeap = (\<lambda>a. newFlag [])
     (0 := (newFlag ''a'')\<lparr>Changed := True,
              Annotations := [requiredAsGroupAnnotation \<mapsto> [''a b'']]\<rparr>)"

definition skipCmd :: Command where
  "skipCmd = (newCommand ''app'')\<lparr>flags := newFlagSet [0]\<rparr>"

section \<open>Which groups enter a status table\<close>

lemma hasAllFlags_iff:
  "hasAllFlags h fs names \<longleftrightarrow> (\<forall>n\<in>set names. Lookup h fs n \<noteq> None)"
  by (induction names) (auto split: option.splits)

lemma processGroups_keys:
  "k \<in> fst ` set (processGroups h fs pf groups gs) \<Longrightarrow>
   k \<in> fst ` set gs \<or> hasAllFlags h fs (Split k)"
proof (induction groups arbitrary: gs)
  case Nil
  then show ?case by simp
next
  case (Cons g groups)
  show ?case
  proof (cases "map_of gs g")
    case None
    show ?thesis
    proof (cases "hasAllFlags h fs (Split g)")
      case True
      with None Cons.prems
      have "k \<in> fst ` set (AList.update g
                (AList.update (Name pf) (Changed pf) (initStatus (Split g) [])) gs)
            \<or> hasAllFlags h fs (Split k)"
        using Cons.IH by (simp add: Let_def)
      then show ?thesis using True by (auto simp: AList.dom_update)
    next
      case False
      with None Cons.prems show ?thesis using Cons.IH by (simp add: Let_def)
    qed
  next
    case (Some st)
    with Cons.prems
    have "k \<in> fst ` set (AList.update g (AList.update (Name pf) (Changed pf) st) gs)
            \<or> hasAllFlags h fs (Split k)"
      using Cons.IH by simp
    moreover from Some have "g \<in> fst ` set gs"
      by (metis domI dom_map_of_conv_image_fst)
    ultimately show ?thesis by (auto simp: AList.dom_update)
  qed
qed

lemma processFlagGroupAnnotation_keys:
  "k \<in> fst ` set (processFlagGroupAnnotation h fs pf ann gs) \<Longrightarrow>
   k \<in> fst ` set gs \<or> hasAllFlags h fs (Split k)"
  unfolding processFlagGroupAnnotation_def
  using processGroups_keys[of k h fs pf _ gs] by (cases "Annotations pf ann") auto

lemma visitGroups_keys:
  "visitGroups h fs visited (g, o1, m) = (g', o', m') \<Longrightarrow>
   (k \<in> fst ` set g' \<longrightarrow> k \<in> fst ` set g \<or> hasAllFlags h fs (Split k)) \<and>
   (k \<in> fst ` set o' \<longrightarrow> k \<in> fst ` set o1 \<or> hasAllFlags h fs (Split k)) \<and>
   (k \<in> fst ` set m' \<longrightarrow> k \<in> fst ` set m \<or> hasAllFlags h fs (Split k))"
proof (induction visited arbitrary: g o1 m)
  case Nil
  then show ?case by simp
next
  case (Cons a visited)
  let ?g = "processFlagGroupAnnotation h fs (h a) requiredAsGroupAnnotation g"
  let ?o = "processFlagGroupAnnotation h fs (h a) oneRequiredAnnotation o1"
  let ?m = "processFlagGroupAnnotation h fs (h a) mutuallyExclusiveAnnotation m"
  from Cons.prems have "visitGroups h fs visited (?g, ?o, ?m) = (g', o', m')" by simp
  from Cons.IH[OF this]
  show ?case
    using processFlagGroupAnnotation_keys[of k h fs "h a" requiredAsGroupAnnotation g]
          processFlagGroupAnnotation_keys[of k h fs "h a" oneRequiredAnnotation o1]
          processFlagGroupAnnotation_keys[of k h fs "h a" mutuallyExclusiveAnnotation m]
    by blast
qed

lemma groupTables_keys:
  assumes "\<not> hasAllFlags h fs (Split k)"
  shows "k \<notin> fst ` set (fst (groupTables h fs visited))"
    and "k \<notin> fst ` set (fst (snd (groupTables h fs visited)))"
    and "k \<notin> fst ` set (snd (snd (groupTables h fs visited)))"
proof -
  obtain g' o' m' where t: "visitGroups h fs visited ([], [], []) = (g', o', m')"
    by (metis prod_cases3)
  from visitGroups_keys[OF t, of k] assms
  show "k \<notin> fst ` set (fst (groupTables h fs visited))"
    and "k \<notin> fst ` set (fst (snd (groupTables h fs visited)))"
    and "k \<notin> fst ` set (snd (snd (groupTables h fs visited)))"
    by (auto simp: groupTables_def t)
qed

text \<open>Each validator reports a key of its own table, with its own kind of error.\<close>

lemma validateRequireLoop_names:
  "validateRequireLoop data keys = Some e \<Longrightarrow>
   \<exists>g u. e = RequiredTogetherError g u \<and> g \<in> set keys"
  by (induction keys) (auto simp: Let_def split: if_splits)

lemma validateOneRequiredLoop_names:
  "validateOneRequiredLoop data keys = Some e \<Longrightarrow>
   \<exists>g. e = OneRequiredError g \<and> g \<in> set keys"
  by (induction keys) (auto simp: Let_def split: if_splits)

lemma validateExclusiveLoop_names:
  "validateExclusiveLoop data keys = Some e \<Longrightarrow>
   \<exists>g u. e = MutuallyExclusiveError g u \<and> g \<in> set keys"
  by (induction keys) (auto simp: Let_def split: if_splits)

lemma ValidateFlagGroups_names:
  assumes "ValidateFlagGroups h cl c = Some e"
  shows "(\<exists>g u. e = RequiredTogetherError g u \<and>
            g \<in> fst ` set (fst (groupTables h (flags c) (VisitAll h cl)))) \<or>
         (\<exists>g. e = OneRequiredError g \<and>
            g \<in> fst ` set (fst (snd (groupTables h (flags c) (VisitAll h cl))))) \<or>
         (\<exists>g u. e = MutuallyExclusiveError g u \<and>
            g \<in> fst ` set (snd (snd (groupTables h (flags c) (VisitAll h cl)))))"
proof -
  obtain g' o' m' where t: "groupTables h (flags c) (VisitAll h cl) = (g', o', m')"
    by (metis prod_cases3)
  from assms t show ?thesis
    unfolding ValidateFlagGroups_def validateRequireFlagGroups_def
      validateOneRequiredFlagGroups_def validateExclusiveFlagGroups_def sortedKeys_def
    by (auto split: if_splits option.splits
        dest!: validateRequireLoop_names validateOneRequiredLoop_names
               validateExclusiveLoop_names)
qed

text \<open>
  Claim C6. A group signature that names a flag the command's flag set does not hold
  gets no entry in any of the three status tables, whatever flags are visited and in
  whatever order, and no error of \<open>ValidateFlagGroups\<close> is about that group.
\<close>

theorem absent_member_group_skipped:
  assumes "n \<in> set (Split sig)" and "Lookup h (flags c) n = None"
  shows "sig \<notin> fst ` set (fst (groupTables h (flags c) visited)) \<and>
         sig \<notin> fst ` set (fst (snd (groupTables h (flags c) visited))) \<and>
         sig \<notin> fst ` set (snd (snd (groupTables h (flags c) visited))) \<and>
         (\<forall>e. ValidateFlagGroups h CommandLine c = Some e \<longrightarrow> errorGroup e \<noteq> Some sig)"
proof -
  from assms have absent: "\<not> hasAllFlags h (flags c) (Split sig)"
    by (auto simp: hasAllFlags_iff)
  have "errorGroup e \<noteq> Some sig" if "ValidateFlagGroups h CommandLine c = Some e" for e
    using ValidateFlagGroups_names[OF that]
      groupTables_keys[OF absent, of "VisitAll h CommandLine"]
    by (force simp: errorGroup_def)
  with groupTables_keys[OF absent, of visited] show ?thesis by blast
qed

lemma skip_example_lookup: "Lookup skipHeap (flags skipCmd) ''b'' = None"
  by (simp add: Lookup_def skipHeap_def skipCmd_def newCommand_def newFlagSet_def newFlag_def)

lemma skip_example_validate: "ValidateFlagGroups skipHeap (flags skipCmd) skipCmd = None"
  by (simp add: ValidateFlagGroups_def groupTables_def VisitAll_def Lookup_def skipHeap_def
      skipCmd_def newCommand_def newFlagSet_def newFlag_def processFlagGroupAnnotation_def
      requiredAsGroupAnnotation_def oneRequiredAnnotation_def mutuallyExclusiveAnnotation_def
      validateRequireFlagGroups_def validateOneRequiredFlagGroups_def
      validateExclusiveFlagGroups_def sortedKeys_def)

theorem absent_member_group_skipped_witness:
  "''b'' \<in> set (Split ''a b'') \<and> Lookup skipHeap (flags skipCmd) ''b'' = None \<and>
   ''a b'' \<notin> fst ` set (fst (groupTables skipHeap (flags skipCmd) [0])) \<and>
   ValidateFlagGroups skipHeap (flags skipCmd) skipCmd = None"
  using absent_member_group_skipped[of "''b''" "''a b''" skipHeap skipCmd "[0]" "flags skipCmd"]
    skip_example_lookup skip_example_validate
  by simp


section \<open>The required-together pass on a concrete command\<close>

text \<open>
  Flags \<open>a\<close>, \<open>b\<close> and \<open>c\<close> of one command, \<open>a\<close> changed, declared required together
  through \<open>MarkFlagsRequiredTogether\<close>.
\<close>

definition abcBase :: flag_heap where
  "abcBase = (\<lambda>a. newFlag [])
     (0 := (newFlag ''a'')\<lparr>Changed := True\<rparr>, 1 := newFlag ''b'', 2 := newFlag ''c'')"

definition abcCmd :: Command where
  "abcCmd = (newCommand ''app'')\<lparr>flags := newFlagSet [0, 1, 2]\<rparr>"

definition abcHeap :: flag_heap where
  "abcHeap = (\<lambda>a. newFlag [])
     (0 := (newFlag ''a'')\<lparr>Changed := True,
              Annotations := [requiredAsGroupAnnotation \<mapsto> [''a b c'']]\<rparr>,
      1 := (newFlag ''b'')\<lparr>Annotations := [requiredAsGroupAnnotation \<mapsto> [''a b c'']]\<rparr>,
      2 := (newFlag ''c'')\<lparr>Annotations := [requiredAsGroupAnnotation \<mapsto> [''a b c'']]\<rparr>)"

lemmas group_example_defs =
  abcBase_def abcCmd_def abcHeap_def newFlag_def newFlagSet_def newCommand_def

lemmas group_eval =
  ValidateFlagGroups_def groupTables_def VisitAll_def Lookup_def
  processFlagGroupAnnotation_def requiredAsGroupAnnotation_def oneRequiredAnnotation_def
  mutuallyExclusiveAnnotation_def validateRequireFlagGroups_def
  validateOneRequiredFlagGroups_def validateExclusiveFlagGroups_def sortedKeys_def
  statusOf_def unsetNames_def setNames_def

lemma abc_declared:
  "MarkFlagsRequiredTogether abcBase abcCmd [''a'', ''b'', ''c''] = Inr abcHeap"
  by (simp add: MarkFlagsRequiredTogether_def SetAnnotation_def Lookup_def annotationOf_def
      requiredAsGroupAnnotation_def group_example_defs fun_eq_iff)

text \<open>
  Claim C2, on the code. With the package's default set empty, which is where a program
  that registers its flags on its commands leaves it, \<open>ValidateFlagGroups\<close> visits no
  flag and accepts the command although \<open>a\<close> is set and \<open>b\<close>, \<open>c\<close> are not. Had the
  visit gone through the command's own set, the error would name \<open>b\<close> and \<open>c\<close>.
\<close>

theorem required_group_not_visited:
  "ValidateFlagGroups abcHeap (newFlagSet []) abcCmd = None \<and>
   ValidateFlagGroups abcHeap (flags abcCmd) abcCmd
     = Some (RequiredTogetherError ''a b c'' [''b'', ''c''])"
  by (simp add: group_eval group_example_defs)

section \<open>Completion directives and the hook registry (completions.go)\<close>

text \<open>
  \<open>ShellCompDirective\<close> is an \<open>int\<close>. The constant block gives each name \<open>1 << iota\<close>,
  \<open>iota\<close> counting the lines of the block from 0.
\<close>

type_synonym ShellCompDirective = int

definition ShellCompDirectiveError :: ShellCompDirective where
  "ShellCompDirectiveError = push_bit (0::nat) 1"

definition ShellCompDirectiveNoSpace :: ShellCompDirective where
  "ShellCompDirectiveNoSpace = push_bit (1::nat) 1"

definition ShellCompDirectiveNoFileComp :: ShellCompDirective where
  "ShellCompDirectiveNoFileComp = push_bit (2::nat) 1"

definition ShellCompDirectiveFilterExt :: ShellCompDirective where
  "ShellCompDirectiveFilterExt = push_bit (3::nat) 1"

definition ShellCompDirectiveKeepOrder :: ShellCompDirective where
  "ShellCompDirectiveKeepOrder = push_bit (4::nat) 1"

definition shellCompDirectiveMaxValue :: ShellCompDirective where
  "shellCompDirectiveMaxValue = push_bit (5::nat) 1"

definition ShellCompDirectiveDefault :: ShellCompDirective where
  "ShellCompDirectiveDefault = 0"

text \<open>The exported bit flags of the block, in the order it declares them.\<close>

definition declaredDirectives :: "ShellCompDirective list" where
  "declaredDirectives = [ShellCompDirectiveError, ShellCompDirectiveNoSpace,
     ShellCompDirectiveNoFileComp, ShellCompDirectiveFilterExt, ShellCompDirectiveKeepOrder]"

text \<open>
  Modelled from the spec: \<open>c.Flag(name)\<close> is not among the sources; it is the lookup of
  the name in the command's flag view.
\<close>

definition cmdFlag :: "flag_heap \<Rightarrow> Command \<Rightarrow> string \<Rightarrow> faddr option" where
  "cmdFlag h c name = Lookup h (flags c) name"

text \<open>
  The registry \<open>flagCompletionFunctions\<close> is a map keyed by the flag's address. What the
  two functions do with \<open>flagCompletionMutex\<close> and with the map is recorded as a trace;
  the deferred unlock is the last event of every path that took the lock.
\<close>

datatype lock_event = Lock | Unlock | RLock | RUnlock | MapRead faddr | MapWrite faddr

type_synonym 'f registry = "faddr \<rightharpoonup> 'f"

definition RegisterFlagCompletionFunc ::
  "flag_heap \<Rightarrow> Command \<Rightarrow> 'f registry \<Rightarrow> string \<Rightarrow> 'f
     \<Rightarrow> error option \<times> 'f registry \<times> lock_event list" where
  "RegisterFlagCompletionFunc h c flagCompletionFunctions flagName f =
     (case cmdFlag h c flagName of
        None \<Rightarrow> (Some (FlagDoesNotExist flagName), flagCompletionFunctions, [])
      | Some flag \<Rightarrow>
          (case flagCompletionFunctions flag of
             Some g \<Rightarrow>
               (Some (FlagAlreadyRegistered flagName), flagCompletionFunctions,
                [Lock, MapRead flag, Unlock])
           | None \<Rightarrow>
               (None, flagCompletionFunctions(flag \<mapsto> f),
                [Lock, MapRead flag, MapWrite flag, Unlock])))"

definition GetFlagCompletionFunc ::
  "flag_heap \<Rightarrow> Command \<Rightarrow> 'f registry \<Rightarrow> string
     \<Rightarrow> ('f option \<times> bool) \<times> lock_event list" where
  "GetFlagCompletionFunc h c flagCompletionFunctions flagName =
     (case cmdFlag h c flagName of
        None \<Rightarrow> ((None, False), [])
      | Some flag \<Rightarrow>
          ((flagCompletionFunctions flag, flagCompletionFunctions flag \<noteq> None),
           [RLock, MapRead flag, RUnlock]))"

text \<open>The events of a trace that happen while the write lock is not held, and whether
  the write lock is held when the trace ends.\<close>

fun unlockedAccesses :: "bool \<Rightarrow> lock_event list \<Rightarrow> lock_event list" where
  "unlockedAccesses held [] = []"
| "unlockedAccesses held (Lock # es) = unlockedAccesses True es"
| "unlockedAccesses held (Unlock # es) = unlockedAccesses False es"
| "unlockedAccesses held (e # es) =
     (if held then unlockedAccesses held es else e # unlockedAccesses held es)"

fun heldAtEnd :: "bool \<Rightarrow> lock_event list \<Rightarrow> bool" where
  "heldAtEnd held [] = held"
| "heldAtEnd held (Lock # es) = heldAtEnd True es"
| "heldAtEnd held (Unlock # es) = heldAtEnd False es"
| "heldAtEnd held (e # es) = heldAtEnd held es"

text \<open>A command with the one flag \<open>out\<close>, and hooks named by numbers.\<close>

definition hookHeap :: flag_heap where
  "hookHeap = (\<lambda>a. newFlag [])(0 := newFlag ''out'')"

definition hookCmd :: Command where
  "hookCmd = (newCommand ''app'')\<lparr>flags := newFlagSet [0]\<rparr>"

lemmas hook_example_defs =
  hookHeap_def hookCmd_def newFlag_def newFlagSet_def newCommand_def cmdFlag_def Lookup_def

text \<open>
  Claim C9, on the code. The constant block declares five bit flags, not six: there is
  no \<open>ShellCompDirectiveFilterDirs\<close>, the fourth is named \<open>ShellCompDirectiveFilterExt\<close>,
  \<open>ShellCompDirectiveKeepOrder\<close> is 16 and the bound \<open>shellCompDirectiveMaxValue\<close> is 32.
\<close>

theorem directive_block_values:
  "declaredDirectives = [1, 2, 4, 8, 16] \<and> length declaredDirectives = 5 \<and>
   shellCompDirectiveMaxValue = 32 \<and> ShellCompDirectiveDefault = 0"
  by (simp add: declaredDirectives_def ShellCompDirectiveError_def
      ShellCompDirectiveNoSpace_def ShellCompDirectiveNoFileComp_def
      ShellCompDirectiveFilterExt_def ShellCompDirectiveKeepOrder_def
      shellCompDirectiveMaxValue_def ShellCompDirectiveDefault_def)

text \<open>
  Claim C7. For a flag the command holds: when the registry already has a hook for it,
  \<open>RegisterFlagCompletionFunc\<close> returns the already-registered error and the registry as
  it was; when it has none, the hook is stored and a registration after that one is
  rejected and changes nothing. Every access to the registry lies between the write
  lock and its release, and the lock is not held on return.
\<close>

theorem second_registration_rejected:
  assumes "cmdFlag h c flagName = Some flag"
  shows "(\<forall>g. reg flag = Some g \<longrightarrow>
            RegisterFlagCompletionFunc h c reg flagName f
              = (Some (FlagAlreadyRegistered flagName), reg, [Lock, MapRead flag, Unlock])) \<and>
         (reg flag = None \<longrightarrow>
            RegisterFlagCompletionFunc h c reg flagName g
              = (None, reg(flag \<mapsto> g), [Lock, MapRead flag, MapWrite flag, Unlock]) \<and>
            RegisterFlagCompletionFunc h c (reg(flag \<mapsto> g)) flagName f
              = (Some (FlagAlreadyRegistered flagName), reg(flag \<mapsto> g),
                 [Lock, MapRead flag, Unlock])) \<and>
         unlockedAccesses False
           (snd (snd (RegisterFlagCompletionFunc h c reg flagName f))) = [] \<and>
         \<not> heldAtEnd False (snd (snd (RegisterFlagCompletionFunc h c reg flagName f)))"
  using assms
  by (auto simp: RegisterFlagCompletionFunc_def split: option.splits)

theorem second_registration_rejected_witness:
  "cmdFlag hookHeap hookCmd ''out'' = Some 0 \<and>
   RegisterFlagCompletionFunc hookHeap hookCmd [0 \<mapsto> (5::nat)] ''out'' 7
     = (Some (FlagAlreadyRegistered ''out''), [0 \<mapsto> 5], [Lock, MapRead 0, Unlock]) \<and>
   RegisterFlagCompletionFunc hookHeap hookCmd Map.empty ''out'' (5::nat)
     = (None, [0 \<mapsto> 5], [Lock, MapRead 0, MapWrite 0, Unlock])"
proof -
  have present: "cmdFlag hookHeap hookCmd ''out'' = Some 0"
    by (simp add: hook_example_defs)
  from second_registration_rejected[OF present, where reg = "[0 \<mapsto> (5::nat)]" and f = 7]
    second_registration_rejected[OF present, where reg = "Map.empty" and g = "5::nat"] present
  show ?thesis by simp
qed

text \<open>
  Claim C10. \<open>GetFlagCompletionFunc\<close> returns the nil function and false, and no error,
  for a name the command's flag view does not hold, and also for a flag that has no
  hook in the registry.
\<close>

theorem missing_flag_or_hook_gives_false:
  "(cmdFlag h c flagName = None \<longrightarrow>
      fst (GetFlagCompletionFunc h c reg flagName) = (None, False)) \<and>
   (\<forall>flag. cmdFlag h c flagName = Some flag \<and> reg flag = None \<longrightarrow>
      fst (GetFlagCompletionFunc h c reg flagName) = (None, False))"
  by (auto simp: GetFlagCompletionFunc_def split: option.splits)

theorem missing_flag_or_hook_gives_false_witness:
  "cmdFlag hookHeap hookCmd ''in'' = None \<and>
   fst (GetFlagCompletionFunc hookHeap hookCmd [0 \<mapsto> (5::nat)] ''in'') = (None, False) \<and>
   cmdFlag hookHeap hookCmd ''out'' = Some 0 \<and>
   fst (GetFlagCompletionFunc hookHeap hookCmd (Map.empty :: nat registry) ''out'')
     = (None, False)"
proof -
  have absent: "cmdFlag hookHeap hookCmd ''in'' = None"
    and present: "cmdFlag hookHeap hookCmd ''out'' = Some 0"
    by (simp_all add: hook_example_defs)
  from missing_flag_or_hook_gives_false[of hookHeap hookCmd "''in''" "[0 \<mapsto> (5::nat)]"]
    missing_flag_or_hook_gives_false[of hookHeap hookCmd "''out''" "Map.empty :: nat registry"]
    absent present
  show ?thesis by simp
qed

section \<open>Flag groups at completion time (flag\_groups.go)\<close>

text \<open>
  Modelled from the spec: the annotation key under which a flag is marked required,
  \<open>BashCompOneRequiredFlag\<close>, is declared outside the sources; \<open>MarkFlagRequired\<close> stores
  \<open>["true"]\<close> under it.
\<close>

definition BashCompOneRequiredFlag :: string where
  "BashCompOneRequiredFlag = ''cobra_annotation_bash_completion_one_required_flag''"

definition MarkFlagRequired :: "flag_heap \<Rightarrow> FlagSet \<Rightarrow> string \<Rightarrow> error option \<times> flag_heap" where
  "MarkFlagRequired h fs name = SetAnnotation h fs name BashCompOneRequiredFlag [''true'']"

text \<open>The loop \<open>for _, fName := range strings.Split(flagList, " ")\<close> that marks every name;
  the error of \<open>MarkFlagRequired\<close> is dropped, as the code drops it.\<close>

fun markAllRequired :: "flag_heap \<Rightarrow> FlagSet \<Rightarrow> string list \<Rightarrow> flag_heap" where
  "markAllRequired h fs [] = h"
| "markAllRequired h fs (fName # rest) = markAllRequired (snd (MarkFlagRequired h fs fName)) fs rest"

text \<open>Required-together groups: the marking runs once for every entry that is set.\<close>

fun requiredStatusLoop :: "flag_heap \<Rightarrow> FlagSet \<Rightarrow> string \<Rightarrow> status \<Rightarrow> flag_heap" where
  "requiredStatusLoop h fs flagList [] = h"
| "requiredStatusLoop h fs flagList ((flagName, isSet) # rest) =
     (if isSet then requiredStatusLoop (markAllRequired h fs (Split flagList)) fs flagList rest
      else requiredStatusLoop h fs flagList rest)"

fun requiredGroupsLoop :: "flag_heap \<Rightarrow> FlagSet \<Rightarrow> groupStatus \<Rightarrow> flag_heap" where
  "requiredGroupsLoop h fs [] = h"
| "requiredGroupsLoop h fs ((flagList, flagnameAndStatus) # rest) =
     requiredGroupsLoop (requiredStatusLoop h fs flagList flagnameAndStatus) fs rest"

text \<open>
  One-required groups: \<open>isSet\<close> is assigned from every entry until one is true, and the
  group is marked when it ends false.
\<close>

fun anySetLoop :: "bool \<Rightarrow> status \<Rightarrow> bool" where
  "anySetLoop isSet [] = isSet"
| "anySetLoop isSet ((flagName, v) # rest) = (if v then True else anySetLoop v rest)"

fun oneRequiredGroupsLoop :: "flag_heap \<Rightarrow> FlagSet \<Rightarrow> groupStatus \<Rightarrow> flag_heap" where
  "oneRequiredGroupsLoop h fs [] = h"
| "oneRequiredGroupsLoop h fs ((flagList, flagnameAndStatus) # rest) =
     (let isSet = anySetLoop False flagnameAndStatus in
      if \<not> isSet then oneRequiredGroupsLoop (markAllRequired h fs (Split flagList)) fs rest
      else oneRequiredGroupsLoop h fs rest)"

text \<open>
  Mutually exclusive groups: for every entry that is set, every other name of the group
  is looked up and hidden. \<open>flag.Hidden = true\<close> on a nil flag is the panic
  \<open>NilDereference\<close>.
\<close>

fun hideOthers :: "flag_heap \<Rightarrow> FlagSet \<Rightarrow> string \<Rightarrow> string list \<Rightarrow> error + flag_heap" where
  "hideOthers h fs flagName [] = Inr h"
| "hideOthers h fs flagName (fName # rest) =
     (if fName \<noteq> flagName then
        (case Lookup h fs fName of
           None \<Rightarrow> Inl NilDereference
         | Some a \<Rightarrow> hideOthers (h(a := (h a)\<lparr>Hidden := True\<rparr>)) fs flagName rest)
      else hideOthers h fs flagName rest)"

fun exclusiveStatusLoop :: "flag_heap \<Rightarrow> FlagSet \<Rightarrow> string \<Rightarrow> status \<Rightarrow> error + flag_heap" where
  "exclusiveStatusLoop h fs flagList [] = Inr h"
| "exclusiveStatusLoop h fs flagList ((flagName, isSet) # rest) =
     (if isSet then
        (case hideOthers h fs flagName (Split flagList) of
           Inl e \<Rightarrow> Inl e
         | Inr h' \<Rightarrow> exclusiveStatusLoop h' fs flagList rest)
      else exclusiveStatusLoop h fs flagList rest)"

fun exclusiveGroupsLoop :: "flag_heap \<Rightarrow> FlagSet \<Rightarrow> groupStatus \<Rightarrow> error + flag_heap" where
  "exclusiveGroupsLoop h fs [] = Inr h"
| "exclusiveGroupsLoop h fs ((flagList, flagnameAndStatus) # rest) =
     (case exclusiveStatusLoop h fs flagList flagnameAndStatus of
        Inl e \<Rightarrow> Inl e
      | Inr h' \<Rightarrow> exclusiveGroupsLoop h' fs rest)"

definition enforceFlagGroupsForCompletion :: "flag_heap \<Rightarrow> Command \<Rightarrow> error + flag_heap" where
  "enforceFlagGroupsForCompletion h c =
     (if DisableFlagParsing c then Inr h
      else
        (case groupTables h (flags c) (VisitAll h (flags c)) of
           (groupStatus, oneRequiredGroupStatus, mutuallyExclusiveGroupStatus) \<Rightarrow>
             exclusiveGroupsLoop
               (oneRequiredGroupsLoop
                  (requiredGroupsLoop h (flags c) groupStatus)
                  (flags c) oneRequiredGroupStatus)
               (flags c) mutuallyExclusiveGroupStatus))"

subsection \<open>What the pass marks and hides\<close>

definition isRequired :: "flag_heap \<Rightarrow> faddr \<Rightarrow> bool" where
  "isRequired h a = (Annotations (h a) BashCompOneRequiredFlag = Some [''true''])"

definition markFrame :: "flag_heap \<Rightarrow> flag_heap \<Rightarrow> bool" where
  "markFrame h h' = (\<forall>a. Name (h' a) = Name (h a) \<and> Changed (h' a) = Changed (h a) \<and>
      Hidden (h' a) = Hidden (h a) \<and> (isRequired h a \<longrightarrow> isRequired h' a))"

definition hideFrame :: "flag_heap \<Rightarrow> flag_heap \<Rightarrow> bool" where
  "hideFrame h h' = (\<forall>a. Name (h' a) = Name (h a) \<and> Changed (h' a) = Changed (h a) \<and>
      Annotations (h' a) = Annotations (h a) \<and> (Hidden (h a) \<longrightarrow> Hidden (h' a)))"

lemma markFrame_refl: "markFrame h h" by (simp add: markFrame_def)
lemma markFrame_trans: "markFrame h h1 \<Longrightarrow> markFrame h1 h2 \<Longrightarrow> markFrame h h2"
  by (simp add: markFrame_def)
lemma hideFrame_refl: "hideFrame h h" by (simp add: hideFrame_def)
lemma hideFrame_trans: "hideFrame h h1 \<Longrightarrow> hideFrame h1 h2 \<Longrightarrow> hideFrame h h2"
  by (simp add: hideFrame_def)

lemma Lookup_names: "(\<forall>a. Name (h' a) = Name (h a)) \<Longrightarrow> Lookup h' fs n = Lookup h fs n"
  by (simp add: Lookup_def)

lemma Lookup_markFrame: "markFrame h h' \<Longrightarrow> Lookup h' fs n = Lookup h fs n"
  by (rule Lookup_names) (simp add: markFrame_def)

lemma Lookup_hideFrame: "hideFrame h h' \<Longrightarrow> Lookup h' fs n = Lookup h fs n"
  by (rule Lookup_names) (simp add: hideFrame_def)

lemma MarkFlagRequired_frame: "markFrame h (snd (MarkFlagRequired h fs n))"
  by (auto simp: MarkFlagRequired_def SetAnnotation_def markFrame_def isRequired_def
      split: option.splits)

lemma markAllRequired_frame: "markFrame h (markAllRequired h fs names)"
proof (induction names arbitrary: h)
  case Nil
  show ?case by (simp add: markFrame_refl)
next
  case (Cons n names)
  show ?case
    using markFrame_trans[OF MarkFlagRequired_frame[of h fs n] Cons.IH] by simp
qed

lemma requiredStatusLoop_frame: "markFrame h (requiredStatusLoop h fs g st)"
proof (induction st arbitrary: h)
  case Nil
  show ?case by (simp add: markFrame_refl)
next
  case (Cons e st)
  obtain m b where e: "e = (m, b)" by (cases e)
  show ?case
    using Cons.IH markFrame_trans[OF markAllRequired_frame[of h fs "Split g"]]
    by (simp add: e)
qed

lemma requiredGroupsLoop_frame: "markFrame h (requiredGroupsLoop h fs T)"
proof (induction T arbitrary: h)
  case Nil
  show ?case by (simp add: markFrame_refl)
next
  case (Cons e T)
  obtain g st where e: "e = (g, st)" by (cases e)
  show ?case
    using markFrame_trans[OF requiredStatusLoop_frame[of h fs g st] Cons.IH] by (simp add: e)
qed

lemma anySetLoop_iff: "anySetLoop b st \<longleftrightarrow> (\<exists>m. (m, True) \<in> set st) \<or> (st = [] \<and> b)"
  by (induction b st rule: anySetLoop.induct) auto

lemma oneRequiredGroupsLoop_frame: "markFrame h (oneRequiredGroupsLoop h fs T)"
proof (induction T arbitrary: h)
  case Nil
  show ?case by (simp add: markFrame_refl)
next
  case (Cons e T)
  obtain g st where e: "e = (g, st)" by (cases e)
  show ?case
    using Cons.IH markFrame_trans[OF markAllRequired_frame[of h fs "Split g"]]
    by (simp add: e Let_def)
qed

lemma hideOthers_result:
  assumes "\<forall>n\<in>set names. Lookup h fs n \<noteq> None"
  shows "\<exists>h'. hideOthers h fs m names = Inr h' \<and> hideFrame h h' \<and>
          (\<forall>a. Hidden (h' a) \<longleftrightarrow>
             Hidden (h a) \<or> (\<exists>n\<in>set names. n \<noteq> m \<and> Lookup h fs n = Some a))"
  using assms
proof (induction names arbitrary: h)
  case Nil
  then show ?case by (simp add: hideFrame_refl)
next
  case (Cons x names)
  show ?case
  proof (cases "x = m")
    case True
    from Cons.prems have "\<forall>n\<in>set names. Lookup h fs n \<noteq> None" by simp
    from Cons.IH[OF this] True show ?thesis by auto
  next
    case False
    from Cons.prems obtain b where b: "Lookup h fs x = Some b" by auto
    let ?h1 = "h(b := (h b)\<lparr>Hidden := True\<rparr>)"
    have fr: "hideFrame h ?h1" by (simp add: hideFrame_def)
    then have lk: "\<And>n. Lookup ?h1 fs n = Lookup h fs n" by (rule Lookup_hideFrame)
    with Cons.prems have "\<forall>n\<in>set names. Lookup ?h1 fs n \<noteq> None" by simp
    from Cons.IH[OF this] obtain h' where
      r: "hideOthers ?h1 fs m names = Inr h'" and fr': "hideFrame ?h1 h'" and
      hid: "\<forall>a. Hidden (h' a) \<longleftrightarrow>
              Hidden (?h1 a) \<or> (\<exists>n\<in>set names. n \<noteq> m \<and> Lookup ?h1 fs n = Some a)"
      by blast
    have "hideOthers h fs m (x # names) = Inr h'" using False b r by simp
    moreover have "hideFrame h h'" using fr fr' by (rule hideFrame_trans)
    moreover have "Hidden (h' a) \<longleftrightarrow>
        Hidden (h a) \<or> (\<exists>n\<in>set (x # names). n \<noteq> m \<and> Lookup h fs n = Some a)" for a
      using hid[rule_format, of a] False b by (auto simp: lk)
    ultimately show ?thesis by blast
  qed
qed

lemma exclusiveStatusLoop_result:
  assumes "\<forall>n\<in>set (Split g). Lookup h fs n \<noteq> None"
  shows "\<exists>h'. exclusiveStatusLoop h fs g st = Inr h' \<and> hideFrame h h' \<and>
          (\<forall>a. Hidden (h' a) \<longleftrightarrow>
             Hidden (h a) \<or>
             (\<exists>m n. (m, True) \<in> set st \<and> n \<in> set (Split g) \<and> n \<noteq> m \<and> Lookup h fs n = Some a))"
  using assms
proof (induction st arbitrary: h)
  case Nil
  then show ?case by (simp add: hideFrame_refl)
next
  case (Cons e st)
  obtain m b where e: "e = (m, b)" by (cases e)
  show ?case
  proof (cases b)
    case False
    from Cons.IH[OF Cons.prems] show ?thesis by (auto simp: e False)
  next
    case True
    from hideOthers_result[OF Cons.prems, of m] obtain h1 where
      r1: "hideOthers h fs m (Split g) = Inr h1" and fr1: "hideFrame h h1" and
      hid1: "\<forall>a. Hidden (h1 a) \<longleftrightarrow>
               Hidden (h a) \<or> (\<exists>n\<in>set (Split g). n \<noteq> m \<and> Lookup h fs n = Some a)"
      by blast
    have lk: "\<And>n. Lookup h1 fs n = Lookup h fs n" using fr1 by (rule Lookup_hideFrame)
    with Cons.prems have "\<forall>n\<in>set (Split g). Lookup h1 fs n \<noteq> None" by simp
    from Cons.IH[OF this] obtain h' where
      r: "exclusiveStatusLoop h1 fs g st = Inr h'" and fr': "hideFrame h1 h'" and
      hid: "\<forall>a. Hidden (h' a) \<longleftrightarrow>
              Hidden (h1 a) \<or>
              (\<exists>m n. (m, True) \<in> set st \<and> n \<in> set (Split g) \<and> n \<noteq> m \<and>
                     Lookup h1 fs n = Some a)"
      by blast
    have "exclusiveStatusLoop h fs g (e # st) = Inr h'" using r1 r by (simp add: e True)
    moreover have "hideFrame h h'" using fr1 fr' by (rule hideFrame_trans)
    moreover have "Hidden (h' a) \<longleftrightarrow>
        Hidden (h a) \<or>
        (\<exists>m n. (m, True) \<in> set (e # st) \<and> n \<in> set (Split g) \<and> n \<noteq> m \<and>
               Lookup h fs n = Some a)" for a
      using hid[rule_format, of a] hid1[rule_format, of a] by (auto simp: lk e True)
    ultimately show ?thesis by blast
  qed
qed

lemma exclusiveGroupsLoop_result:
  assumes "\<forall>(g, st)\<in>set T. \<forall>n\<in>set (Split g). Lookup h fs n \<noteq> None"
  shows "\<exists>h'. exclusiveGroupsLoop h fs T = Inr h' \<and> hideFrame h h' \<and>
          (\<forall>a. Hidden (h' a) \<longleftrightarrow>
             Hidden (h a) \<or>
             (\<exists>g st m n. (g, st) \<in> set T \<and> (m, True) \<in> set st \<and> n \<in> set (Split g) \<and>
                        n \<noteq> m \<and> Lookup h fs n = Some a))"
  using assms
proof (induction T arbitrary: h)
  case Nil
  then show ?case by (simp add: hideFrame_refl)
next
  case (Cons e T)
  obtain g st where e: "e = (g, st)" by (cases e)
  from Cons.prems have here: "\<forall>n\<in>set (Split g). Lookup h fs n \<noteq> None" by (simp add: e)
  from exclusiveStatusLoop_result[OF here, of st] obtain h1 where
    r1: "exclusiveStatusLoop h fs g st = Inr h1" and fr1: "hideFrame h h1" and
    hid1: "\<forall>a. Hidden (h1 a) \<longleftrightarrow>
             Hidden (h a) \<or>
             (\<exists>m n. (m, True) \<in> set st \<and> n \<in> set (Split g) \<and> n \<noteq> m \<and> Lookup h fs n = Some a)"
    by blast
  have lk: "\<And>n. Lookup h1 fs n = Lookup h fs n" using fr1 by (rule Lookup_hideFrame)
  with Cons.prems have "\<forall>(g, st)\<in>set T. \<forall>n\<in>set (Split g). Lookup h1 fs n \<noteq> None"
    by auto
  from Cons.IH[OF this] obtain h' where
    r: "exclusiveGroupsLoop h1 fs T = Inr h'" and fr': "hideFrame h1 h'" and
    hid: "\<forall>a. Hidden (h' a) \<longleftrightarrow>
            Hidden (h1 a) \<or>
            (\<exists>g st m n. (g, st) \<in> set T \<and> (m, True) \<in> set st \<and> n \<in> set (Split g) \<and>
                       n \<noteq> m \<and> Lookup h1 fs n = Some a)"
    by blast
  have "exclusiveGroupsLoop h fs (e # T) = Inr h'" using r1 r by (simp add: e)
  moreover have "hideFrame h h'" using fr1 fr' by (rule hideFrame_trans)
  moreover have "Hidden (h' a) \<longleftrightarrow>
      Hidden (h a) \<or>
      (\<exists>g st m n. (g, st) \<in> set (e # T) \<and> (m, True) \<in> set st \<and> n \<in> set (Split g) \<and>
                 n \<noteq> m \<and> Lookup h fs n = Some a)" for a
    using hid[rule_format, of a] hid1[rule_format, of a] unfolding lk e
    by (simp only: set_simps insert_iff prod.inject) blast
  ultimately show ?case by blast
qed

text \<open>The three tables of the pass, which visits the command's own set.\<close>

definition completionTables :: "flag_heap \<Rightarrow> Command \<Rightarrow> groupStatus \<times> groupStatus \<times> groupStatus" where
  "completionTables h c = groupTables h (flags c) (VisitAll h (flags c))"

lemma enforce_alt: "enforceFlagGroupsForCompletion h c =
     (if DisableFlagParsing c then Inr h
      else
        (case completionTables h c of
           (groupStatus, oneRequiredGroupStatus, mutuallyExclusiveGroupStatus) \<Rightarrow>
             exclusiveGroupsLoop
               (oneRequiredGroupsLoop
                  (requiredGroupsLoop h (flags c) groupStatus)
                  (flags c) oneRequiredGroupStatus)
               (flags c) mutuallyExclusiveGroupStatus))"
  by (simp add: enforceFlagGroupsForCompletion_def completionTables_def)

text \<open>Flags \<open>a\<close> (changed) and \<open>b\<close> in the one-required group \<open>a b\<close>; and a command with a
  required-together group \<open>a b\<close>, an exclusive group \<open>x y\<close> and a one-required group
  \<open>p q\<close>, of which \<open>a\<close> and \<open>x\<close> are changed.\<close>

definition orHeap :: flag_heap where
  "orHeap = (\<lambda>a. newFlag [])
     (0 := (newFlag ''a'')\<lparr>Changed := True, Annotations := [oneRequiredAnnotation \<mapsto> [''a b'']]\<rparr>,
      1 := (newFlag ''b'')\<lparr>Annotations := [oneRequiredAnnotation \<mapsto> [''a b'']]\<rparr>)"

definition orCmd :: Command where
  "orCmd = (newCommand ''app'')\<lparr>flags := newFlagSet [0, 1]\<rparr>"

definition compHeap :: flag_heap where
  "compHeap = (\<lambda>a. newFlag [])
     (0 := (newFlag ''a'')\<lparr>Changed := True, Annotations := [requiredAsGroupAnnotation \<mapsto> [''a b'']]\<rparr>,
      1 := (newFlag ''b'')\<lparr>Annotations := [requiredAsGroupAnnotation \<mapsto> [''a b'']]\<rparr>,
      2 := (newFlag ''x'')\<lparr>Changed := True, Annotations := [mutuallyExclusiveAnnotation \<mapsto> [''x y'']]\<rparr>,
      3 := (newFlag ''y'')\<lparr>Annotations := [mutuallyExclusiveAnnotation \<mapsto> [''x y'']]\<rparr>,
      4 := (newFlag ''p'')\<lparr>Annotations := [oneRequiredAnnotation \<mapsto> [''p q'']]\<rparr>,
      5 := (newFlag ''q'')\<lparr>Annotations := [oneRequiredAnnotation \<mapsto> [''p q'']]\<rparr>)"

definition compCmd :: Command where
  "compCmd = (newCommand ''app'')\<lparr>flags := newFlagSet [0, 1, 2, 3, 4, 5]\<rparr>"

lemmas completion_example_defs =
  orHeap_def orCmd_def compHeap_def compCmd_def newFlag_def newFlagSet_def newCommand_def

lemmas completion_eval =
  enforceFlagGroupsForCompletion_def completionTables_def groupTables_def VisitAll_def Lookup_def
  processFlagGroupAnnotation_def requiredAsGroupAnnotation_def oneRequiredAnnotation_def
  mutuallyExclusiveAnnotation_def BashCompOneRequiredFlag_def MarkFlagRequired_def
  SetAnnotation_def isRequired_def

text \<open>
  Claim C3 as stated fails: with \<open>a\<close> of the one-required group \<open>a b\<close> set, the pass
  changes nothing, and \<open>b\<close> is not marked required.
\<close>

theorem one_required_with_set_member_marks_nothing:
  "Changed (orHeap 0) \<and>
   fst (snd (completionTables orHeap orCmd)) = [(''a b'', [(''a'', True), (''b'', False)])] \<and>
   enforceFlagGroupsForCompletion orHeap orCmd = Inr orHeap \<and>
   \<not> isRequired orHeap 1"
  by (simp add: completion_eval completion_example_defs)

section \<open>Resolving a command (command.go)\<close>

text \<open>
  \<open>EnablePrefixMatching\<close> is a package variable that the sources use and do not declare;
  it is the first argument of \<open>findNext\<close> and of what calls it.

  Modelled from the spec: \<open>commandNameMatches\<close> is not among the sources; the spec calls
  the match "exact", so it is equality of the two names.
\<close>

definition commandNameMatches :: "string \<Rightarrow> string \<Rightarrow> bool" where
  "commandNameMatches s t = (s = t)"

text \<open>\<open>Name()\<close>: \<open>Use\<close> up to its first space.\<close>

definition cmdName :: "Command \<Rightarrow> string" where
  "cmdName c = takeWhile (\<lambda>ch. ch \<noteq> CHR '' '') (Use c)"

fun HasAlias :: "Command \<Rightarrow> string \<Rightarrow> bool" where
  "HasAlias c s = list_ex (\<lambda>a. commandNameMatches a s) (Aliases c)"

text \<open>
  The sources define \<open>HasNameOrAliasPrefix\<close> and call \<open>hasNameOrAliasPrefix\<close>. It records
  the name or alias that matched in the command it is asked about.
\<close>

definition hasNameOrAliasPrefix :: "Command \<Rightarrow> string \<Rightarrow> bool \<times> Command" where
  "hasNameOrAliasPrefix c prefix =
     (if HasPrefix (cmdName c) prefix then (True, c\<lparr>commandCalledAs_name := cmdName c\<rparr>)
      else (case find (\<lambda>alias. HasPrefix alias prefix) (Aliases c) of
              Some alias \<Rightarrow> (True, c\<lparr>commandCalledAs_name := alias\<rparr>)
            | None \<Rightarrow> (False, c)))"

text \<open>The loop of \<open>findNext\<close> over the children, with the matches collected so far.\<close>

fun findNextLoop ::
  "bool \<Rightarrow> cmd_heap \<Rightarrow> string \<Rightarrow> caddr list \<Rightarrow> caddr list \<Rightarrow> caddr option \<times> cmd_heap" where
  "findNextLoop EnablePrefixMatching ch next matches [] =
     (if length matches = 1 then Some (matches ! 0) else None, ch)"
| "findNextLoop EnablePrefixMatching ch next matches (cmd # rest) =
     (if commandNameMatches (cmdName (ch cmd)) next \<or> HasAlias (ch cmd) next
      then (Some cmd, ch(cmd := (ch cmd)\<lparr>commandCalledAs_name := next\<rparr>))
      else if EnablePrefixMatching
      then (case hasNameOrAliasPrefix (ch cmd) next of
              (True, cmd') \<Rightarrow>
                findNextLoop EnablePrefixMatching (ch(cmd := cmd')) next (matches @ [cmd]) rest
            | (False, cmd') \<Rightarrow>
                findNextLoop EnablePrefixMatching (ch(cmd := cmd')) next matches rest)
      else findNextLoop EnablePrefixMatching ch next matches rest)"

definition findNext :: "bool \<Rightarrow> cmd_heap \<Rightarrow> caddr \<Rightarrow> string \<Rightarrow> caddr option \<times> cmd_heap" where
  "findNext EnablePrefixMatching ch c next =
     findNextLoop EnablePrefixMatching ch next [] (commands (ch c))"

definition hasNoOptDefVal :: "flag_heap \<Rightarrow> string \<Rightarrow> FlagSet \<Rightarrow> bool" where
  "hasNoOptDefVal fh name fs =
     (case Lookup fh fs name of None \<Rightarrow> False | Some flag \<Rightarrow> NoOptDefVal (fh flag) \<noteq> [])"

definition shortNoOptDefVal :: "flag_heap \<Rightarrow> string \<Rightarrow> FlagSet \<Rightarrow> bool" where
  "shortNoOptDefVal fh name fs =
     (if length name = 0 then False
      else (case ShorthandLookup fh fs (take 1 name) of
              None \<Rightarrow> False
            | Some flag \<Rightarrow> NoOptDefVal (fh flag) \<noteq> []))"

text \<open>The test shared by \<open>stripFlag\<close>, \<open>argsMinusFirstX\<close> and \<open>Traverse\<close>: a long flag
  without \<open>=\<close> that takes a value, or (through \<open>fallthrough\<close>) a two-character short one.\<close>

definition longValueFlag :: "flag_heap \<Rightarrow> FlagSet \<Rightarrow> string \<Rightarrow> bool" where
  "longValueFlag fh fs s =
     (HasPrefix s ''--'' \<and> \<not> ContainsEq s \<and> \<not> hasNoOptDefVal fh (drop 2 s) fs)"

definition shortValueFlag :: "flag_heap \<Rightarrow> FlagSet \<Rightarrow> string \<Rightarrow> bool" where
  "shortValueFlag fh fs s =
     (HasPrefix s ''-'' \<and> \<not> ContainsEq s \<and> length s = 2 \<and> \<not> shortNoOptDefVal fh (drop 1 s) fs)"

text \<open>
  \<open>stripFlag\<close> as the sources have it: \<open>return commands\<close> stands inside the loop, after the
  switch, so the loop ends at the first token that is not a flag with its value, and the
  last case tests for \<open>=\<close>. The two \<open>break Loop\<close> reach the \<open>return args\<close> at the end
  of the function, \<open>args\<close> being what is left of the argument list by then.
\<close>

fun stripFlagLoop :: "flag_heap \<Rightarrow> FlagSet \<Rightarrow> string list \<Rightarrow> string list" where
  "stripFlagLoop fh fs [] = []"
| "stripFlagLoop fh fs (s # as) =
     (if s = ''--'' then as
      else if longValueFlag fh fs s \<or> shortValueFlag fh fs s
      then (case as of [] \<Rightarrow> [] | v # as' \<Rightarrow> stripFlagLoop fh fs as')
      else if s \<noteq> [] \<and> \<not> HasPrefix s ''='' then [s]
      else [])"

definition stripFlag :: "flag_heap \<Rightarrow> string list \<Rightarrow> Command \<Rightarrow> string list" where
  "stripFlag fh as c = (if length as = 0 then as else stripFlagLoop fh (flags c) as)"

text \<open>\<open>argsMinusFirstX\<close>: \<open>before\<close> holds \<open>args[:pos]\<close>.\<close>

fun argsMinusLoop ::
  "flag_heap \<Rightarrow> FlagSet \<Rightarrow> string \<Rightarrow> string list \<Rightarrow> string list \<Rightarrow> string list \<Rightarrow> string list" where
  "argsMinusLoop fh fs x as before [] = as"
| "argsMinusLoop fh fs x as before (s # rest) =
     (if s = ''--'' then as
      else if longValueFlag fh fs s \<or> shortValueFlag fh fs s
      then (case rest of
              [] \<Rightarrow> as
            | v # rest' \<Rightarrow> argsMinusLoop fh fs x as (before @ [s, v]) rest')
      else if \<not> HasPrefix s ''-''
      then (if s = x then before @ rest
            else argsMinusLoop fh fs x as (before @ [s]) rest)
      else argsMinusLoop fh fs x as (before @ [s]) rest)"

definition argsMinusFirstX :: "flag_heap \<Rightarrow> Command \<Rightarrow> string list \<Rightarrow> string \<Rightarrow> string list" where
  "argsMinusFirstX fh c as x =
     (if length as = 0 then as else argsMinusLoop fh (flags c) x as [] as)"

text \<open>The closure \<open>innerfind\<close> of \<open>Find\<close>. It need not return: a chain of commands can be
  followed for ever when it runs in a circle and no argument is taken away.\<close>

partial_function (option) innerfind ::
  "bool \<Rightarrow> flag_heap \<Rightarrow> cmd_heap \<Rightarrow> caddr \<Rightarrow> string list
     \<Rightarrow> ((caddr \<times> string list) \<times> cmd_heap) option" where
  "innerfind EnablePrefixMatching fh ch c innerArgs =
     (let argsWOflags = stripFlag fh innerArgs (ch c) in
      if length argsWOflags = 0 then Some ((c, innerArgs), ch)
      else
        (let nextSubCmd = hd argsWOflags in
         case findNext EnablePrefixMatching ch c nextSubCmd of
           (Some cmd, ch') \<Rightarrow>
             innerfind EnablePrefixMatching fh ch' cmd
               (argsMinusFirstX fh (ch' c) innerArgs nextSubCmd)
         | (None, ch') \<Rightarrow> Some ((c, innerArgs), ch')))"

section \<open>Suggestions (command.go, args.go)\<close>

text \<open>
  \<open>strings.ToLower\<close> and \<open>strings.EqualFold\<close> belong to Go's standard library and fold
  the case of every Unicode letter, each in its own way. \<open>SuggestionFor\<close> and what calls
  it take the two as the parameters \<open>ToLower\<close> and \<open>EqualFold\<close>; what is proved of
  them holds for any two functions.

  The examples are made of ASCII bytes only. On such strings \<open>strings.ToLower\<close> turns the
  letters \<open>A\<close> to \<open>Z\<close> into \<open>a\<close> to \<open>z\<close> and leaves every other byte, and
  \<open>strings.EqualFold\<close> compares two strings letter by letter up to that change;
  \<open>asciiToLower\<close> and \<open>asciiEqualFold\<close> are these two restrictions and stand for the
  library in the examples, nowhere else.
\<close>

definition asciiLowerChar :: "char \<Rightarrow> char" where
  "asciiLowerChar c =
     (case map_of (zip ''ABCDEFGHIJKLMNOPQRSTUVWXYZ'' ''abcdefghijklmnopqrstuvwxyz'') c of
        Some l \<Rightarrow> l
      | None \<Rightarrow> c)"

definition asciiToLower :: "string \<Rightarrow> string" where
  "asciiToLower s = map asciiLowerChar s"

definition asciiEqualFold :: "string \<Rightarrow> string \<Rightarrow> bool" where
  "asciiEqualFold s t = (asciiToLower s = asciiToLower t)"

text \<open>
  \<open>ld\<close> is not among the sources: \<open>SuggestionFor\<close> and what calls it take it as a
  parameter.

  Modelled from the spec: the spec calls \<open>ld\<close> the case-insensitive Levenshtein distance,
  the least number of insertions, deletions and substitutions of one character that
  turn one string into the other; \<open>ldSpec\<close> is that distance on strings of ASCII bytes,
  for the examples.
\<close>

fun levenshtein :: "string \<Rightarrow> string \<Rightarrow> nat" where
  "levenshtein [] t = length t"
| "levenshtein s [] = length s"
| "levenshtein (a # s) (b # t) =
     min (1 + levenshtein s (b # t))
       (min (1 + levenshtein (a # s) t) ((if a = b then 0 else 1) + levenshtein s t))"

definition ldSpec :: "string \<Rightarrow> string \<Rightarrow> bool \<Rightarrow> int" where
  "ldSpec s t ignoreCase =
     (if ignoreCase then int (levenshtein (asciiToLower s) (asciiToLower t))
      else int (levenshtein s t))"

text \<open>
  \<open>IsAvailableCommand\<close> and \<open>HasAvailableSubCommands\<close> call each other down the children.
  They are one function here, on a command (\<open>Inl\<close>) or on what is left of a list of
  children (\<open>Inr\<close>); it has no value where the calls never end.
\<close>

partial_function (option) available :: "cmd_heap \<Rightarrow> caddr + caddr list \<Rightarrow> bool option" where
  "available ch x =
     (case x of
        Inl c \<Rightarrow>
          (if length (Deprecated (ch c)) \<noteq> 0 \<or> cmdHidden (ch c) then Some False
           else if (case parent (ch c) of None \<Rightarrow> False | Some p \<Rightarrow> helpCommand (ch p) = Some c)
           then Some False
           else if Run (ch c) \<or> RunE (ch c) then Some True
           else available ch (Inr (commands (ch c))))
      | Inr [] \<Rightarrow> Some False
      | Inr (sub # rest) \<Rightarrow>
          Option.bind (available ch (Inl sub))
            (\<lambda>b. if b then Some True else available ch (Inr rest)))"

definition IsAvailableCommand :: "cmd_heap \<Rightarrow> caddr \<Rightarrow> bool option" where
  "IsAvailableCommand ch c = available ch (Inl c)"

definition HasAvailableSubCommands :: "cmd_heap \<Rightarrow> caddr \<Rightarrow> bool option" where
  "HasAvailableSubCommands ch c = available ch (Inr (commands (ch c)))"

text \<open>What one available child adds to the suggestions.\<close>

definition suggestionsOf ::
  "(string \<Rightarrow> string \<Rightarrow> bool \<Rightarrow> int) \<Rightarrow> (string \<Rightarrow> string) \<Rightarrow>
   (string \<Rightarrow> string \<Rightarrow> bool) \<Rightarrow> Command \<Rightarrow> string \<Rightarrow> Command \<Rightarrow> string list" where
  "suggestionsOf ld ToLower EqualFold c typedName cmd =
     (let levenshteinDistance = ld typedName (cmdName cmd) True;
          suggestByLevenshtein = levenshteinDistance \<le> SuggestionsMinimumDistance c;
          suggestByPrefix = HasPrefix (ToLower (cmdName cmd)) (ToLower typedName)
      in (if suggestByLevenshtein \<or> suggestByPrefix then [cmdName cmd] else []) @
         map (\<lambda>explicitSuggestion. cmdName cmd)
           (filter (\<lambda>explicitSuggestion. EqualFold typedName explicitSuggestion) (SuggestFor cmd)))"

fun SuggestionsLoop ::
  "(string \<Rightarrow> string \<Rightarrow> bool \<Rightarrow> int) \<Rightarrow> (string \<Rightarrow> string) \<Rightarrow>
   (string \<Rightarrow> string \<Rightarrow> bool) \<Rightarrow> cmd_heap \<Rightarrow> caddr \<Rightarrow> string \<Rightarrow> string list
     \<Rightarrow> caddr list \<Rightarrow> string list option" where
  "SuggestionsLoop ld ToLower EqualFold ch c typedName suggestions [] = Some suggestions"
| "SuggestionsLoop ld ToLower EqualFold ch c typedName suggestions (cmd # rest) =
     (case IsAvailableCommand ch cmd of
        None \<Rightarrow> None
      | Some True \<Rightarrow>
          SuggestionsLoop ld ToLower EqualFold ch c typedName
            (suggestions @ suggestionsOf ld ToLower EqualFold (ch c) typedName (ch cmd)) rest
      | Some False \<Rightarrow> SuggestionsLoop ld ToLower EqualFold ch c typedName suggestions rest)"

definition SuggestionFor ::
  "(string \<Rightarrow> string \<Rightarrow> bool \<Rightarrow> int) \<Rightarrow> (string \<Rightarrow> string) \<Rightarrow>
   (string \<Rightarrow> string \<Rightarrow> bool) \<Rightarrow> cmd_heap \<Rightarrow> caddr \<Rightarrow> string
     \<Rightarrow> string list option" where
  "SuggestionFor ld ToLower EqualFold ch c typedName = SuggestionsLoop ld ToLower EqualFold ch c typedName [] (commands (ch c))"

text \<open>
  \<open>findSuggestion\<close> writes the default into \<open>SuggestionsMinimumDistance\<close> before it asks for
  the suggestions (it calls \<open>c.SuggestFor\<close>, which is a field; \<open>SuggestionFor\<close> is the
  method). \<open>quote\<close> stands for the verb \<open>%#v\<close> of the fmt package.
\<close>

definition coerceDistance :: "cmd_heap \<Rightarrow> caddr \<Rightarrow> cmd_heap" where
  "coerceDistance ch c =
     (if SuggestionsMinimumDistance (ch c) \<le> 0
      then ch(c := (ch c)\<lparr>SuggestionsMinimumDistance := 2\<rparr>) else ch)"

definition renderSuggestions :: "(string \<Rightarrow> string) \<Rightarrow> string list \<Rightarrow> string" where
  "renderSuggestions quote suggestions =
     (if length suggestions > 0
      then [CHR 0x0A, CHR 0x0A] @ '' Did you mean this?'' @ [CHR 0x0A] @
           concat (map (\<lambda>s. [CHR 0x09] @ quote s @ [CHR 0x0A]) suggestions)
      else [])"

definition findSuggestion ::
  "(string \<Rightarrow> string) \<Rightarrow> (string \<Rightarrow> string \<Rightarrow> bool \<Rightarrow> int) \<Rightarrow> (string \<Rightarrow> string) \<Rightarrow>
   (string \<Rightarrow> string \<Rightarrow> bool) \<Rightarrow> cmd_heap \<Rightarrow> caddr \<Rightarrow> string
     \<Rightarrow> (string \<times> cmd_heap) option" where
  "findSuggestion quote ld ToLower EqualFold ch c arg =
     (if DisableSuggestions (ch c) then Some ([], ch)
      else
        (let ch' = coerceDistance ch c in
         case SuggestionFor ld ToLower EqualFold ch' c arg of
           None \<Rightarrow> None
         | Some suggestions \<Rightarrow> Some (renderSuggestions quote suggestions, ch')))"

definition CommandDisplayNameAnnotation :: string where
  "CommandDisplayNameAnnotation = ''cobra_annotation_command_display_name''"

definition displayName :: "Command \<Rightarrow> string" where
  "displayName c =
     (case cmdAnnotations c CommandDisplayNameAnnotation of
        Some displayName \<Rightarrow> displayName
      | None \<Rightarrow> cmdName c)"

text \<open>\<open>CommandPath\<close> climbs to the root; it has no value when the parents run in a circle.\<close>

partial_function (option) CommandPath :: "cmd_heap \<Rightarrow> caddr \<Rightarrow> string option" where
  "CommandPath ch c =
     (case parent (ch c) of
        Some p \<Rightarrow> Option.bind (CommandPath ch p) (\<lambda>pp. Some (pp @ '' '' @ cmdName (ch c)))
      | None \<Rightarrow> Some (displayName (ch c)))"

text \<open>
  \<open>legacyArgs\<close> (spelt \<open>legactArgs\<close> where args.go defines it). The error is kept as its
  three parts: the argument, the command path and the suggestions.
\<close>

definition legacyArgs ::
  "(string \<Rightarrow> string) \<Rightarrow> (string \<Rightarrow> string \<Rightarrow> bool \<Rightarrow> int) \<Rightarrow> (string \<Rightarrow> string) \<Rightarrow>
   (string \<Rightarrow> string \<Rightarrow> bool) \<Rightarrow> cmd_heap \<Rightarrow> caddr \<Rightarrow> string list
     \<Rightarrow> (error option \<times> cmd_heap) option" where
  "legacyArgs quote ld ToLower EqualFold ch cmd as =
     (if \<not> length (commands (ch cmd)) > 0 then Some (None, ch)
      else if \<not> (parent (ch cmd) \<noteq> None) \<and> length as > 0
      then (case CommandPath ch cmd of
              None \<Rightarrow> None
            | Some path \<Rightarrow>
                (case findSuggestion quote ld ToLower EqualFold ch cmd (hd as) of
                   None \<Rightarrow> None
                 | Some (suggestion, ch') \<Rightarrow>
                     Some (Some (UnknownCommand (hd as) path suggestion), ch')))
      else Some (None, ch))"

text \<open>\<open>Find\<close>; it calls \<open>stripFlags\<close>, which the sources define as \<open>stripFlag\<close>.\<close>

definition Find ::
  "(string \<Rightarrow> string) \<Rightarrow> (string \<Rightarrow> string \<Rightarrow> bool \<Rightarrow> int) \<Rightarrow> (string \<Rightarrow> string) \<Rightarrow>
   (string \<Rightarrow> string \<Rightarrow> bool) \<Rightarrow> bool \<Rightarrow> flag_heap \<Rightarrow> cmd_heap
     \<Rightarrow> caddr \<Rightarrow> string list \<Rightarrow> ((caddr \<times> string list \<times> error option) \<times> cmd_heap) option" where
  "Find quote ld ToLower EqualFold EnablePrefixMatching fh ch c as =
     (case innerfind EnablePrefixMatching fh ch c as of
        None \<Rightarrow> None
      | Some ((commandFound, a), ch1) \<Rightarrow>
          (if args (ch1 commandFound) = None
           then (case legacyArgs quote ld ToLower EqualFold ch1 commandFound (stripFlag fh a (ch1 commandFound)) of
                   None \<Rightarrow> None
                 | Some (err, ch2) \<Rightarrow> Some ((commandFound, a, err), ch2))
           else Some ((commandFound, a, None), ch1)))"

section \<open>Traverse (command.go)\<close>

text \<open>The sources define \<open>isFlagArgs\<close>; \<open>Traverse\<close> calls it \<open>InFlagArg\<close>.\<close>

definition isFlagArgs :: "string \<Rightarrow> bool" where
  "isFlagArgs as =
     ((length as \<ge> 3 \<and> take 2 as = ''--'') \<or>
      (length as \<ge> 2 \<and> as ! 0 = CHR ''-'' \<and> as ! 1 \<noteq> CHR ''-''))"

text \<open>
  The loop of \<open>Traverse\<close> up to the first token that none of the four cases takes: that
  token with the flags buffered before it and the arguments after it (\<open>args[i+1:]\<close>),
  or the end of the arguments. The third case leaves \<open>inFlag\<close> true, as the sources do.
\<close>

datatype scan = Exhausted "string list" | Candidate string "string list" "string list"

fun scanArgs :: "flag_heap \<Rightarrow> FlagSet \<Rightarrow> string list \<Rightarrow> bool \<Rightarrow> string list \<Rightarrow> scan" where
  "scanArgs fh fs flgs inFlag [] = Exhausted flgs"
| "scanArgs fh fs flgs inFlag (arg # rest) =
     (if HasPrefix arg ''--'' \<and> \<not> ContainsEq arg
      then scanArgs fh fs (flgs @ [arg]) (\<not> hasNoOptDefVal fh (drop 2 arg) fs) rest
      else if HasPrefix arg ''-'' \<and> \<not> ContainsEq arg \<and> length arg = 2 \<and>
              \<not> shortNoOptDefVal fh (drop 1 arg) fs
      then scanArgs fh fs (flgs @ [arg]) True rest
      else if inFlag then scanArgs fh fs (flgs @ [arg]) True rest
      else if isFlagArgs arg then scanArgs fh fs (flgs @ [arg]) inFlag rest
      else Candidate arg flgs rest)"

lemma scanArgs_rest:
  "scanArgs fh fs flgs inFlag as = Candidate arg flgs' rest \<Longrightarrow> length rest < length as"
proof (induction fh fs flgs inFlag as rule: scanArgs.induct)
  case (1 fh fs flgs inFlag)
  then show ?case by simp
next
  case (2 fh fs flgs inFlag a as)
  then show ?case by (auto split: if_splits intro: less_SucI)
qed

text \<open>
  \<open>ParseFlags\<close> is not among the sources. It is a parameter that says whether parsing
  the buffered flags against a command fails; what it stores in the flags is not read
  by the traversal.
\<close>

function Traverse ::
  "(caddr \<Rightarrow> string list \<Rightarrow> error option) \<Rightarrow> bool \<Rightarrow> flag_heap \<Rightarrow> cmd_heap \<Rightarrow> caddr
     \<Rightarrow> string list \<Rightarrow> (caddr option \<times> string list \<times> error option) \<times> cmd_heap" where
  "Traverse ParseFlags EnablePrefixMatching fh ch c as =
     (case scanArgs fh (flags (ch c)) [] False as of
        Exhausted flgs \<Rightarrow> ((Some c, as, None), ch)
      | Candidate arg flgs rest \<Rightarrow>
          (case findNext EnablePrefixMatching ch c arg of
             (None, ch') \<Rightarrow> ((Some c, as, None), ch')
           | (Some cmd, ch') \<Rightarrow>
               (case ParseFlags c flgs of
                  Some err \<Rightarrow> ((None, as, Some err), ch')
                | None \<Rightarrow> Traverse ParseFlags EnablePrefixMatching fh ch' cmd rest)))"
  by pat_completeness auto
termination
  by (relation "measure (\<lambda>(P, pm, fh, ch, c, as). length as)") (auto dest: scanArgs_rest)

section \<open>What \<open>findNext\<close> returns\<close>

text \<open>
  What is asked of \<open>findNext\<close>, in terms of the data alone. A child matches a token
  exactly when the token is its name or is one of its aliases; it matches the token as a
  prefix when its name or one of its aliases begins with the token. Two heaps are the
  same but for \<open>commandCalledAs.name\<close> when they differ in that recorded name only.
\<close>

definition exactMatch :: "string \<Rightarrow> Command \<Rightarrow> bool" where
  "exactMatch tok cmd = (cmdName cmd = tok \<or> tok \<in> set (Aliases cmd))"

definition prefixMatch :: "string \<Rightarrow> Command \<Rightarrow> bool" where
  "prefixMatch tok cmd = (\<exists>n. (n = cmdName cmd \<or> n \<in> set (Aliases cmd)) \<and> (\<exists>r. n = tok @ r))"

text \<open>The tests the code makes are these.\<close>

lemma HasPrefix_iff: "HasPrefix s p \<longleftrightarrow> (\<exists>r. s = p @ r)"
proof
  assume "HasPrefix s p"
  then have "s = p @ drop (length p) s"
    by (metis HasPrefix_def append_take_drop_id)
  then show "\<exists>r. s = p @ r" ..
next
  assume "\<exists>r. s = p @ r"
  then show "HasPrefix s p" by (auto simp: HasPrefix_def)
qed

lemma exactMatch_code:
  "exactMatch next cmd = (commandNameMatches (cmdName cmd) next \<or> HasAlias cmd next)"
  by (auto simp: exactMatch_def commandNameMatches_def list_ex_iff)

lemma prefixMatch_code:
  "prefixMatch next cmd =
     (HasPrefix (cmdName cmd) next \<or> (\<exists>alias\<in>set (Aliases cmd). HasPrefix alias next))"
  unfolding prefixMatch_def HasPrefix_iff by metis

definition sameButCalledAs :: "cmd_heap \<Rightarrow> cmd_heap \<Rightarrow> bool" where
  "sameButCalledAs ch ch' =
     (\<forall>a. ch' a = (ch a)\<lparr>commandCalledAs_name := commandCalledAs_name (ch' a)\<rparr>)"

lemma sameButCalledAs_refl: "sameButCalledAs ch ch"
  by (simp add: sameButCalledAs_def)

lemma sameButCalledAs_trans:
  "sameButCalledAs ch ch1 \<Longrightarrow> sameButCalledAs ch1 ch2 \<Longrightarrow> sameButCalledAs ch ch2"
  unfolding sameButCalledAs_def
proof (intro allI)
  fix a
  assume 1: "\<forall>a. ch1 a = (ch a)\<lparr>commandCalledAs_name := commandCalledAs_name (ch1 a)\<rparr>"
    and 2: "\<forall>a. ch2 a = (ch1 a)\<lparr>commandCalledAs_name := commandCalledAs_name (ch2 a)\<rparr>"
  from 2 have "ch2 a = (ch1 a)\<lparr>commandCalledAs_name := commandCalledAs_name (ch2 a)\<rparr>" by blast
  also from 1 have "ch1 a = (ch a)\<lparr>commandCalledAs_name := commandCalledAs_name (ch1 a)\<rparr>" by blast
  finally show "ch2 a = (ch a)\<lparr>commandCalledAs_name := commandCalledAs_name (ch2 a)\<rparr>" by simp
qed

lemma sameButCalledAs_upd:
  "sameButCalledAs ch (ch(a := (ch a)\<lparr>commandCalledAs_name := n\<rparr>))"
  by (simp add: sameButCalledAs_def)

lemma find_Some_holds: "find P xs = Some x \<Longrightarrow> x \<in> set xs \<and> P x"
  by (induction xs) (auto split: if_splits)

lemma hasNameOrAliasPrefix_fst: "fst (hasNameOrAliasPrefix cmd next) = prefixMatch next cmd"
  by (auto simp: hasNameOrAliasPrefix_def prefixMatch_code find_None_iff
      split: option.splits dest: find_Some_holds)

lemma hasNameOrAliasPrefix_snd:
  "\<exists>n. snd (hasNameOrAliasPrefix cmd next) = cmd\<lparr>commandCalledAs_name := n\<rparr>"
proof (cases "HasPrefix (cmdName cmd) next")
  case True
  then show ?thesis by (auto simp: hasNameOrAliasPrefix_def)
next
  case False
  show ?thesis
  proof (cases "find (\<lambda>alias. HasPrefix alias next) (Aliases cmd)")
    case None
    with False have "snd (hasNameOrAliasPrefix cmd next)
        = cmd\<lparr>commandCalledAs_name := commandCalledAs_name cmd\<rparr>"
      by (simp add: hasNameOrAliasPrefix_def)
    then show ?thesis by blast
  next
    case (Some al)
    with False show ?thesis by (auto simp: hasNameOrAliasPrefix_def)
  qed
qed

lemma exactMatch_calledAs [simp]:
  "exactMatch next (cmd\<lparr>commandCalledAs_name := n\<rparr>) = exactMatch next cmd"
  by (simp add: exactMatch_def cmdName_def)

lemma prefixMatch_calledAs [simp]:
  "prefixMatch next (cmd\<lparr>commandCalledAs_name := n\<rparr>) = prefixMatch next cmd"
  by (simp add: prefixMatch_def cmdName_def)

lemma match_upd:
  "(\<lambda>b. exactMatch next ((ch(a := (ch a)\<lparr>commandCalledAs_name := n\<rparr>)) b))
     = (\<lambda>b. exactMatch next (ch b))"
  "(\<lambda>b. prefixMatch next ((ch(a := (ch a)\<lparr>commandCalledAs_name := n\<rparr>)) b))
     = (\<lambda>b. prefixMatch next (ch b))"
  by (rule ext, case_tac "a = b", simp_all)+

text \<open>What the loop returns: the first exact match if there is one, and otherwise the
  single prefix match among those collected so far and those still to come.\<close>

definition singleMatch :: "caddr list \<Rightarrow> caddr option" where
  "singleMatch ms = (case ms of [a] \<Rightarrow> Some a | _ \<Rightarrow> None)"

lemma singleMatch_alt: "(if length ms = 1 then Some (ms ! 0) else None) = singleMatch ms"
  by (auto simp: singleMatch_def length_Suc_conv split: list.splits)

lemma findNextLoop_result:
  "fst (findNextLoop pm ch next ms kids) =
     (case find (\<lambda>a. exactMatch next (ch a)) kids of
        Some a \<Rightarrow> Some a
      | None \<Rightarrow> singleMatch (ms @ (if pm then filter (\<lambda>a. prefixMatch next (ch a)) kids else [])))"
proof (induction kids arbitrary: ch ms)
  case Nil
  show ?case using singleMatch_alt[of ms] by (simp split: if_splits)
next
  case (Cons k kids)
  show ?case
  proof (cases "exactMatch next (ch k)")
    case True
    then show ?thesis by (simp add: exactMatch_code)
  next
    case noexact: False
    show ?thesis
    proof (cases pm)
      case False
      with noexact Cons.IH[of ch ms] show ?thesis by (simp add: exactMatch_code)
    next
      case True
      obtain n where n: "snd (hasNameOrAliasPrefix (ch k) next) = (ch k)\<lparr>commandCalledAs_name := n\<rparr>"
        using hasNameOrAliasPrefix_snd by blast
      let ?ch1 = "ch(k := (ch k)\<lparr>commandCalledAs_name := n\<rparr>)"
      have step: "findNextLoop pm ch next ms (k # kids) =
          findNextLoop pm ?ch1 next (if prefixMatch next (ch k) then ms @ [k] else ms) kids"
        using noexact True n hasNameOrAliasPrefix_fst[of "ch k" "next"]
        by (cases "hasNameOrAliasPrefix (ch k) next") (auto simp: exactMatch_code)
      show ?thesis
        unfolding step Cons.IH match_upd using noexact True
        by (simp split: option.splits)
    qed
  qed
qed

lemma findNextLoop_frame: "sameButCalledAs ch (snd (findNextLoop pm ch next ms kids))"
proof (induction kids arbitrary: ch ms)
  case Nil
  show ?case by (simp add: sameButCalledAs_refl)
next
  case (Cons k kids)
  obtain n where n: "snd (hasNameOrAliasPrefix (ch k) next) = (ch k)\<lparr>commandCalledAs_name := n\<rparr>"
    using hasNameOrAliasPrefix_snd by blast
  let ?ch1 = "ch(k := (ch k)\<lparr>commandCalledAs_name := n\<rparr>)"
  have 1: "sameButCalledAs ch ?ch1" by (rule sameButCalledAs_upd)
  show ?case
  proof (cases "commandNameMatches (cmdName (ch k)) next \<or> HasAlias (ch k) next")
    case True
    then have "snd (findNextLoop pm ch next ms (k # kids))
        = ch(k := (ch k)\<lparr>commandCalledAs_name := next\<rparr>)"
      by simp
    then show ?thesis by (simp only: sameButCalledAs_upd)
  next
    case False
    show ?thesis
    proof (cases pm)
      case False
      with \<open>\<not> (commandNameMatches (cmdName (ch k)) next \<or> HasAlias (ch k) next)\<close> Cons.IH[of ch ms]
      show ?thesis by simp
    next
      case True
      have "\<exists>ms'. findNextLoop pm ch next ms (k # kids) = findNextLoop pm ?ch1 next ms' kids"
        using \<open>\<not> (commandNameMatches (cmdName (ch k)) next \<or> HasAlias (ch k) next)\<close> True n
        by (cases "hasNameOrAliasPrefix (ch k) next"; cases "fst (hasNameOrAliasPrefix (ch k) next)")
           auto
      then obtain ms' where
        eq: "findNextLoop pm ch next ms (k # kids) = findNextLoop pm ?ch1 next ms' kids"
        by blast
      show ?thesis
        unfolding eq by (rule sameButCalledAs_trans[OF 1 Cons.IH[of ?ch1 ms']])
    qed
  qed
qed

lemma findNextLoop_outside:
  "a \<notin> set kids \<Longrightarrow> snd (findNextLoop pm ch next ms kids) a = ch a"
proof (induction kids arbitrary: ch ms)
  case Nil
  show ?case by simp
next
  case (Cons k kids)
  then have ak: "a \<noteq> k" and rest: "a \<notin> set kids" by auto
  show ?case
  proof (cases "commandNameMatches (cmdName (ch k)) next \<or> HasAlias (ch k) next")
    case True
    with ak show ?thesis by simp
  next
    case False
    show ?thesis
    proof (cases pm)
      case False
      with \<open>\<not> (commandNameMatches (cmdName (ch k)) next \<or> HasAlias (ch k) next)\<close>
        Cons.IH[OF rest, of ch ms]
      show ?thesis by simp
    next
      case True
      obtain b cmd' where h: "hasNameOrAliasPrefix (ch k) next = (b, cmd')"
        by (cases "hasNameOrAliasPrefix (ch k) next")
      have "\<exists>ms'. findNextLoop pm ch next ms (k # kids) = findNextLoop pm (ch(k := cmd')) next ms' kids"
        using \<open>\<not> (commandNameMatches (cmdName (ch k)) next \<or> HasAlias (ch k) next)\<close> True h
        by (cases b) auto
      then obtain ms' where
        eq: "findNextLoop pm ch next ms (k # kids) = findNextLoop pm (ch(k := cmd')) next ms' kids"
        by blast
      have "snd (findNextLoop pm (ch(k := cmd')) next ms' kids) a = (ch(k := cmd')) a"
        by (rule Cons.IH[OF rest])
      also have "\<dots> = ch a" using ak by simp
      finally show ?thesis unfolding eq .
    qed
  qed
qed

text \<open>A root with the children \<open>status\<close> and \<open>start\<close>, one with \<open>status\<close> and \<open>build\<close>,
  and a flag heap without flags.\<close>

definition ambHeap :: cmd_heap where
  "ambHeap = (\<lambda>a. newCommand [])
     (0 := (newCommand ''app'')\<lparr>commands := [1, 2]\<rparr>,
      1 := (newCommand ''status'')\<lparr>parent := Some 0, Run := True\<rparr>,
      2 := (newCommand ''start'')\<lparr>parent := Some 0, Run := True\<rparr>)"

definition uniqHeap :: cmd_heap where
  "uniqHeap = (\<lambda>a. newCommand [])
     (0 := (newCommand ''app'')\<lparr>commands := [1, 2]\<rparr>,
      1 := (newCommand ''status'')\<lparr>parent := Some 0, Run := True\<rparr>,
      2 := (newCommand ''build'')\<lparr>parent := Some 0, Run := True\<rparr>)"

definition noFlags :: flag_heap where
  "noFlags = (\<lambda>a. newFlag [])"

lemmas resolve_example_defs =
  ambHeap_def uniqHeap_def noFlags_def newCommand_def newFlagSet_def newFlag_def

lemmas resolve_eval =
  exactMatch_def prefixMatch_code commandNameMatches_def cmdName_def HasPrefix_def
  stripFlag_def longValueFlag_def shortValueFlag_def ContainsEq_def singleMatch_def

lemma amb_facts:
  "find (\<lambda>a. exactMatch ''sta'' (ambHeap a)) (commands (ambHeap 0)) = None"
  "filter (\<lambda>a. prefixMatch ''sta'' (ambHeap a)) (commands (ambHeap 0)) = [1, 2]"
  "stripFlag noFlags [''sta''] (ambHeap 0) = [''sta'']"
  by (simp_all add: resolve_eval resolve_example_defs)

lemma uniq_facts:
  "find (\<lambda>a. exactMatch ''stat'' (uniqHeap a)) (commands (uniqHeap 0)) = None"
  "filter (\<lambda>a. prefixMatch ''stat'' (uniqHeap a)) (commands (uniqHeap 0)) = [1]"
  by (simp_all add: resolve_eval resolve_example_defs)

section \<open>What \<open>Traverse\<close> buffers and what it looks up\<close>

lemma isFlagArgs_single_dash:
  "HasPrefix arg ''-'' \<Longrightarrow> arg \<noteq> ''-'' \<Longrightarrow> \<not> HasPrefix arg ''--'' \<Longrightarrow> isFlagArgs arg"
proof (cases arg)
  case Nil
  assume "HasPrefix arg ''-''"
  with Nil show ?thesis by (simp add: HasPrefix_def)
next
  case (Cons a rest)
  assume p: "HasPrefix arg ''-''" and n: "arg \<noteq> ''-''" and d: "\<not> HasPrefix arg ''--''"
  show ?thesis
  proof (cases rest)
    case Nil
    with Cons p n show ?thesis by (simp add: HasPrefix_def)
  next
    case (Cons b rest')
    with \<open>arg = a # rest\<close> p d show ?thesis by (simp add: HasPrefix_def isFlagArgs_def)
  qed
qed

lemma isFlagArgs_double_dash_eq:
  "HasPrefix arg ''--'' \<Longrightarrow> ContainsEq arg \<Longrightarrow> isFlagArgs arg"
proof (cases arg)
  case Nil
  assume "HasPrefix arg ''--''"
  with Nil show ?thesis by (simp add: HasPrefix_def)
next
  case (Cons a rest)
  assume p: "HasPrefix arg ''--''" and e: "ContainsEq arg"
  show ?thesis
  proof (cases rest)
    case Nil
    with Cons p show ?thesis by (simp add: HasPrefix_def)
  next
    case (Cons b rest')
    with \<open>arg = a # rest\<close> p e show ?thesis
      by (cases rest') (auto simp: HasPrefix_def isFlagArgs_def ContainsEq_def)
  qed
qed

lemma HasPrefix_double_single: "HasPrefix arg ''--'' \<Longrightarrow> HasPrefix arg ''-''"
  by (cases arg) (auto simp: HasPrefix_def)

lemma scanArgs_candidate:
  "scanArgs fh fs flgs inFlag as = Candidate tok flgs' rest' \<Longrightarrow>
   flgs @ as = flgs' @ tok # rest' \<and> (\<not> HasPrefix tok ''-'' \<or> tok = ''-'')"
proof (induction as arbitrary: flgs inFlag)
  case Nil
  then show ?case by simp
next
  case (Cons arg rest)
  let ?buffered = "(HasPrefix arg ''--'' \<and> \<not> ContainsEq arg) \<or>
      (HasPrefix arg ''-'' \<and> \<not> ContainsEq arg \<and> length arg = 2 \<and>
       \<not> shortNoOptDefVal fh (drop 1 arg) fs) \<or> inFlag \<or> isFlagArgs arg"
  show ?case
  proof (cases ?buffered)
    case True
    then have "\<exists>b. scanArgs fh fs flgs inFlag (arg # rest) = scanArgs fh fs (flgs @ [arg]) b rest"
      by auto
    then obtain b where "scanArgs fh fs (flgs @ [arg]) b rest = Candidate tok flgs' rest'"
      using Cons.prems by auto
    from Cons.IH[OF this] show ?thesis by simp
  next
    case False
    then have "scanArgs fh fs flgs inFlag (arg # rest) = Candidate arg flgs rest" by auto
    with Cons.prems have eq: "tok = arg" "flgs' = flgs" "rest' = rest" by simp_all
    have "\<not> HasPrefix arg ''-'' \<or> arg = ''-''"
      using False isFlagArgs_single_dash[of arg] isFlagArgs_double_dash_eq[of arg]
      by blast
    with eq show ?thesis by simp
  qed
qed

text \<open>A root with the child \<open>sub\<close> and the flags \<open>name\<close>, which takes a value, and
  \<open>verbose\<close>, which declares the no-value default \<open>true\<close>; and a \<open>ParseFlags\<close> that never
  fails.\<close>

definition subHeap :: cmd_heap where
  "subHeap = (\<lambda>a. newCommand [])
     (0 := (newCommand ''app'')\<lparr>commands := [1], flags := newFlagSet [0, 1]\<rparr>,
      1 := (newCommand ''sub'')\<lparr>parent := Some 0, Run := True\<rparr>)"

definition subFlags :: flag_heap where
  "subFlags = (\<lambda>a. newFlag [])
     (0 := newFlag ''name'',
      1 := (newFlag ''verbose'')\<lparr>NoOptDefVal := ''true''\<rparr>)"

definition parseOk :: "caddr \<Rightarrow> string list \<Rightarrow> error option" where
  "parseOk c flgs = None"

lemma not_dash_not_flag: "\<not> HasPrefix arg ''-'' \<or> arg = ''-'' \<Longrightarrow> \<not> isFlagArgs arg"
proof (cases arg)
  case Nil
  then show ?thesis by (simp add: isFlagArgs_def)
next
  case (Cons a r)
  assume "\<not> HasPrefix arg ''-'' \<or> arg = ''-''"
  with Cons show ?thesis by (cases r) (auto simp: isFlagArgs_def HasPrefix_def)
qed

text \<open>
  Claim C4, amended. In the loop of \<open>Traverse\<close>: a token that begins with \<open>--\<close> and has
  no \<open>=\<close> is buffered and sets flag mode unless the flag of that name declares a
  no-value default; a two-character token \<open>-x\<close> without \<open>=\<close> whose short flag declares
  no such default is buffered and sets flag mode; outside flag mode every other token
  that begins with \<open>-\<close>, the bare \<open>-\<close> apart, is buffered and flag mode is not entered;
  a token met in flag mode is buffered; and outside flag mode a token that does not
  begin with \<open>-\<close>, or is the bare \<open>-\<close>, is not buffered. When the arguments end
  without such a token, \<open>Traverse\<close> returns the current command and its arguments.
  Otherwise the first token that is not buffered is looked up with \<open>findNext\<close> on the
  current command, all tokens before it being the buffered flags: when no child is
  found \<open>Traverse\<close> returns the current command, the arguments as they came and no
  error; when one is found the buffered flags are parsed and the rest is traversed from
  the child.
\<close>

theorem traverse_scans_then_looks_up:
  "(HasPrefix arg ''--'' \<and> \<not> ContainsEq arg \<longrightarrow>
      scanArgs fh fs flgs inFlag (arg # rest)
        = scanArgs fh fs (flgs @ [arg]) (\<not> hasNoOptDefVal fh (drop 2 arg) fs) rest) \<and>
   (HasPrefix arg ''-'' \<and> \<not> HasPrefix arg ''--'' \<and> \<not> ContainsEq arg \<and> length arg = 2 \<and>
    \<not> shortNoOptDefVal fh (drop 1 arg) fs \<longrightarrow>
      scanArgs fh fs flgs inFlag (arg # rest) = scanArgs fh fs (flgs @ [arg]) True rest) \<and>
   (HasPrefix arg ''-'' \<and> arg \<noteq> ''-'' \<and>
    (ContainsEq arg \<or>
     (\<not> HasPrefix arg ''--'' \<and> (length arg \<noteq> 2 \<or> shortNoOptDefVal fh (drop 1 arg) fs))) \<longrightarrow>
      scanArgs fh fs flgs False (arg # rest) = scanArgs fh fs (flgs @ [arg]) False rest) \<and>
   (\<exists>b. scanArgs fh fs flgs True (arg # rest) = scanArgs fh fs (flgs @ [arg]) b rest) \<and>
   (\<not> HasPrefix arg ''-'' \<or> arg = ''-'' \<longrightarrow>
      scanArgs fh fs flgs False (arg # rest) = Candidate arg flgs rest) \<and>
   (\<forall>flgs'. scanArgs fh (flags (ch c)) [] False as = Exhausted flgs' \<longrightarrow>
      Traverse ParseFlags pm fh ch c as = ((Some c, as, None), ch)) \<and>
   (\<forall>tok flgs' rest'. scanArgs fh (flags (ch c)) [] False as = Candidate tok flgs' rest' \<longrightarrow>
      as = flgs' @ tok # rest' \<and> (\<not> HasPrefix tok ''-'' \<or> tok = ''-'') \<and>
      (fst (findNext pm ch c tok) = None \<longrightarrow>
         Traverse ParseFlags pm fh ch c as = ((Some c, as, None), snd (findNext pm ch c tok))) \<and>
      (\<forall>cmd. fst (findNext pm ch c tok) = Some cmd \<longrightarrow>
         (ParseFlags c flgs' = None \<longrightarrow>
            Traverse ParseFlags pm fh ch c as
              = Traverse ParseFlags pm fh (snd (findNext pm ch c tok)) cmd rest') \<and>
         (\<forall>e. ParseFlags c flgs' = Some e \<longrightarrow>
            Traverse ParseFlags pm fh ch c as
              = ((None, as, Some e), snd (findNext pm ch c tok)))))"
proof -
  have long: "scanArgs fh fs flgs inFlag (arg # rest)
        = scanArgs fh fs (flgs @ [arg]) (\<not> hasNoOptDefVal fh (drop 2 arg) fs) rest"
    if "HasPrefix arg ''--''" "\<not> ContainsEq arg"
    using that by simp
  have short: "scanArgs fh fs flgs inFlag (arg # rest) = scanArgs fh fs (flgs @ [arg]) True rest"
    if "HasPrefix arg ''-''" "\<not> HasPrefix arg ''--''" "\<not> ContainsEq arg" "length arg = 2"
       "\<not> shortNoOptDefVal fh (drop 1 arg) fs"
    using that by simp
  have other: "scanArgs fh fs flgs False (arg # rest) = scanArgs fh fs (flgs @ [arg]) False rest"
    if "HasPrefix arg ''-''" "arg \<noteq> ''-''"
       "ContainsEq arg \<or>
        (\<not> HasPrefix arg ''--'' \<and> (length arg \<noteq> 2 \<or> shortNoOptDefVal fh (drop 1 arg) fs))"
  proof -
    have "isFlagArgs arg"
      using that isFlagArgs_single_dash[of arg] isFlagArgs_double_dash_eq[of arg] by blast
    with that show ?thesis by auto
  qed
  have mode: "\<exists>b. scanArgs fh fs flgs True (arg # rest) = scanArgs fh fs (flgs @ [arg]) b rest"
    by auto
  have word: "scanArgs fh fs flgs False (arg # rest) = Candidate arg flgs rest"
    if "\<not> HasPrefix arg ''-'' \<or> arg = ''-''"
  proof -
    from that have 1: "\<not> isFlagArgs arg" by (rule not_dash_not_flag)
    from that have 2: "\<not> HasPrefix arg ''--''"
      using HasPrefix_double_single[of arg] by (auto simp: HasPrefix_def)
    from that have 3: "\<not> (HasPrefix arg ''-'' \<and> length arg = 2)" by auto
    from 1 2 3 show ?thesis by auto
  qed
  have exhausted: "Traverse ParseFlags pm fh ch c as = ((Some c, as, None), ch)"
    if "scanArgs fh (flags (ch c)) [] False as = Exhausted flgs'" for flgs'
    using that by (subst Traverse.simps) simp
  have cand: "as = flgs' @ tok # rest' \<and> (\<not> HasPrefix tok ''-'' \<or> tok = ''-'')"
    if "scanArgs fh (flags (ch c)) [] False as = Candidate tok flgs' rest'" for tok flgs' rest'
    using scanArgs_candidate[OF that] by simp
  have notfound: "Traverse ParseFlags pm fh ch c as = ((Some c, as, None), snd (findNext pm ch c tok))"
    if "scanArgs fh (flags (ch c)) [] False as = Candidate tok flgs' rest'"
       "fst (findNext pm ch c tok) = None" for tok flgs' rest'
    using that by (subst Traverse.simps) (cases "findNext pm ch c tok", simp)
  have found: "Traverse ParseFlags pm fh ch c as
        = Traverse ParseFlags pm fh (snd (findNext pm ch c tok)) cmd rest'"
    if "scanArgs fh (flags (ch c)) [] False as = Candidate tok flgs' rest'"
       "fst (findNext pm ch c tok) = Some cmd" "ParseFlags c flgs' = None" for tok flgs' rest' cmd
    using that by (subst Traverse.simps) (cases "findNext pm ch c tok", simp)
  have failed: "Traverse ParseFlags pm fh ch c as = ((None, as, Some e), snd (findNext pm ch c tok))"
    if "scanArgs fh (flags (ch c)) [] False as = Candidate tok flgs' rest'"
       "fst (findNext pm ch c tok) = Some cmd" "ParseFlags c flgs' = Some e" for tok flgs' rest' cmd e
    using that by (subst Traverse.simps) (cases "findNext pm ch c tok", simp)
  show ?thesis
    using long short other mode word exhausted cand notfound found failed by blast
qed

lemmas traverse_example_defs =
  subHeap_def subFlags_def parseOk_def newCommand_def newFlagSet_def newFlag_def

lemmas traverse_eval =
  HasPrefix_def ContainsEq_def hasNoOptDefVal_def shortNoOptDefVal_def Lookup_def
  ShorthandLookup_def isFlagArgs_def findNext_def commandNameMatches_def cmdName_def

text \<open>
  Claim C4 as stated fails: \<open>-abc\<close> begins with \<open>-\<close>, has no \<open>=\<close>, and no flag declares a
  no-value default for it, yet it does not enter flag mode, and \<open>sub\<close> after it is
  looked up and found; and the bare \<open>-\<close> is looked up although it begins with \<open>-\<close>, so
  that \<open>sub\<close>, the first token without \<open>-\<close>, is never looked up.
\<close>

theorem word_after_single_dash_is_looked_up:
  "HasPrefix ''-abc'' ''-'' \<and> \<not> ContainsEq ''-abc'' \<and>
   \<not> hasNoOptDefVal subFlags ''abc'' (flags (subHeap 0)) \<and>
   \<not> shortNoOptDefVal subFlags ''abc'' (flags (subHeap 0)) \<and>
   scanArgs subFlags (flags (subHeap 0)) [] False [''-abc'', ''sub'']
     = Candidate ''sub'' [''-abc''] [] \<and>
   fst (Traverse parseOk False subFlags subHeap 0 [''-abc'', ''sub'']) = (Some 1, [], None) \<and>
   fst (Traverse parseOk False subFlags subHeap 0 [''-'', ''sub''])
     = (Some 0, [''-'', ''sub''], None)"
  by (simp add: traverse_eval traverse_example_defs)

lemma sub_scan:
  "scanArgs subFlags (flags (subHeap 0)) [] False [''--verbose'', ''nosuch'', ''x'']
     = Candidate ''nosuch'' [''--verbose''] [''x'']"
  "scanArgs subFlags (flags (subHeap 0)) [] False [''--name'', ''v'', ''sub'']
     = Exhausted [''--name'', ''v'', ''sub'']"
  "fst (findNext False subHeap 0 ''nosuch'') = None"
  by (simp_all add: traverse_eval traverse_example_defs)

lemma sub_scan2:
  "scanArgs subFlags (flags (subHeap 0)) [] False [''--verbose'', ''sub'', ''x'']
     = Candidate ''sub'' [''--verbose''] [''x'']"
  "fst (findNext False subHeap 0 ''sub'') = Some 1"
  "scanArgs subFlags (flags (snd (findNext False subHeap 0 ''sub'') 1)) [] False [''x'']
     = Candidate ''x'' [] []"
  "fst (findNext False (snd (findNext False subHeap 0 ''sub'')) 1 ''x'') = None"
  "\<not> HasPrefix ''nosuch'' ''-''"
  by (simp_all add: traverse_eval traverse_example_defs)

theorem traverse_scans_then_looks_up_witness:
  "HasPrefix ''--verbose'' ''--'' \<and> \<not> ContainsEq ''--verbose'' \<and>
   hasNoOptDefVal subFlags ''verbose'' (flags (subHeap 0)) \<and>
   scanArgs subFlags (flags (subHeap 0)) [] False [''--verbose'', ''nosuch'', ''x'']
     = scanArgs subFlags (flags (subHeap 0)) [''--verbose''] False [''nosuch'', ''x''] \<and>
   scanArgs subFlags (flags (subHeap 0)) [''--verbose''] False [''nosuch'', ''x'']
     = Candidate ''nosuch'' [''--verbose''] [''x''] \<and>
   fst (Traverse parseOk False subFlags subHeap 0 [''--verbose'', ''nosuch'', ''x''])
     = (Some 0, [''--verbose'', ''nosuch'', ''x''], None) \<and>
   fst (Traverse parseOk False subFlags subHeap 0 [''--verbose'', ''sub'', ''x''])
     = (Some 1, [''x''], None)"
proof -
  have p: "HasPrefix ''--verbose'' ''--''" "\<not> ContainsEq ''--verbose''"
    "hasNoOptDefVal subFlags ''verbose'' (flags (subHeap 0))"
    by (simp_all add: traverse_eval traverse_example_defs)
  note t = traverse_scans_then_looks_up[of "''--verbose''" subFlags "flags (subHeap 0)" "[]" False
      "[''nosuch'', ''x'']" subHeap 0 "[''--verbose'', ''nosuch'', ''x'']" parseOk False]
  from t p have step:
    "scanArgs subFlags (flags (subHeap 0)) [] False [''--verbose'', ''nosuch'', ''x'']
     = scanArgs subFlags (flags (subHeap 0)) [''--verbose''] False [''nosuch'', ''x'']"
    by simp
  have word: "scanArgs subFlags (flags (subHeap 0)) [''--verbose''] False [''nosuch'', ''x'']
     = Candidate ''nosuch'' [''--verbose''] [''x'']"
    using traverse_scans_then_looks_up[of "''nosuch''" subFlags "flags (subHeap 0)" "[''--verbose'']" False "[''x'']"]
      sub_scan2(5)
    by blast
  from t sub_scan(1) sub_scan(3) have
    "Traverse parseOk False subFlags subHeap 0 [''--verbose'', ''nosuch'', ''x'']
       = ((Some 0, [''--verbose'', ''nosuch'', ''x''], None), snd (findNext False subHeap 0 ''nosuch''))"
    by blast
  then have nf: "fst (Traverse parseOk False subFlags subHeap 0 [''--verbose'', ''nosuch'', ''x''])
     = (Some 0, [''--verbose'', ''nosuch'', ''x''], None)"
    by simp
  have "parseOk 0 [''--verbose''] = None" by (simp add: parseOk_def)
  with traverse_scans_then_looks_up[of _ subFlags _ _ _ _ subHeap 0 "[''--verbose'', ''sub'', ''x'']" parseOk False]
    sub_scan2(1) sub_scan2(2)
  have "Traverse parseOk False subFlags subHeap 0 [''--verbose'', ''sub'', ''x'']
      = Traverse parseOk False subFlags (snd (findNext False subHeap 0 ''sub'')) 1 [''x'']"
    by blast
  also have "\<dots> = ((Some 1, [''x''], None),
      snd (findNext False (snd (findNext False subHeap 0 ''sub'')) 1 ''x''))"
    using traverse_scans_then_looks_up[of _ subFlags _ _ _ _ "snd (findNext False subHeap 0 ''sub'')" 1 "[''x'']"
        parseOk False] sub_scan2(3) sub_scan2(4)
    by blast
  finally have f: "fst (Traverse parseOk False subFlags subHeap 0 [''--verbose'', ''sub'', ''x''])
     = (Some 1, [''x''], None)"
    by simp
  from p step word nf f show ?thesis by simp
qed

section \<open>Which children are suggested\<close>

lemma available_Inl:
  "available ch (Inl c) =
     (if length (Deprecated (ch c)) \<noteq> 0 \<or> cmdHidden (ch c) then Some False
      else if (case parent (ch c) of None \<Rightarrow> False | Some p \<Rightarrow> helpCommand (ch p) = Some c)
      then Some False
      else if Run (ch c) \<or> RunE (ch c) then Some True
      else available ch (Inr (commands (ch c))))"
  by (subst available.simps) simp

lemma available_Nil: "available ch (Inr []) = Some False"
  by (subst available.simps) simp

lemma available_Cons:
  "available ch (Inr (sub # rest)) =
     Option.bind (available ch (Inl sub))
       (\<lambda>b. if b then Some True else available ch (Inr rest))"
  by (subst available.simps) simp

lemma available_Inr_total:
  "(\<And>k. k \<in> set kids \<Longrightarrow> available ch (Inl k) \<noteq> None) \<Longrightarrow> available ch (Inr kids) \<noteq> None"
proof (induction kids)
  case Nil
  show ?case by (simp add: available_Nil)
next
  case (Cons k kids)
  from Cons.prems[of k] obtain b where b: "available ch (Inl k) = Some b" by auto
  from Cons have rest: "available ch (Inr kids) \<noteq> None" by simp
  show ?case using rest by (auto simp: available_Cons b)
qed

lemma available_Inl_total:
  assumes rank: "\<forall>a. \<forall>b\<in>set (commands (ch a)). rank b < (rank a :: nat)"
  shows "available ch (Inl c) \<noteq> None"
proof (induction "rank c" arbitrary: c rule: less_induct)
  case less
  have kids: "available ch (Inr (commands (ch c))) \<noteq> None"
  proof (rule available_Inr_total)
    fix k assume "k \<in> set (commands (ch c))"
    with rank have "rank k < rank c" by blast
    then show "available ch (Inl k) \<noteq> None" by (rule less)
  qed
  show ?case using kids by (auto simp: available_Inl)
qed

text \<open>Two heaps that agree on what availability reads.\<close>

definition sameAvailability :: "cmd_heap \<Rightarrow> cmd_heap \<Rightarrow> bool" where
  "sameAvailability ch ch' =
     (\<forall>a. Deprecated (ch' a) = Deprecated (ch a) \<and> cmdHidden (ch' a) = cmdHidden (ch a) \<and>
          parent (ch' a) = parent (ch a) \<and> helpCommand (ch' a) = helpCommand (ch a) \<and>
          Run (ch' a) = Run (ch a) \<and> RunE (ch' a) = RunE (ch a) \<and>
          commands (ch' a) = commands (ch a))"

lemma available_Inr_same:
  "(\<And>k. k \<in> set kids \<Longrightarrow> available ch' (Inl k) = available ch (Inl k)) \<Longrightarrow>
   available ch' (Inr kids) = available ch (Inr kids)"
proof (induction kids)
  case Nil
  show ?case by (simp add: available_Nil)
next
  case (Cons k kids)
  from Cons.prems[of k] have k: "available ch' (Inl k) = available ch (Inl k)" by simp
  from Cons have rest: "available ch' (Inr kids) = available ch (Inr kids)" by simp
  show ?case unfolding available_Cons k rest ..
qed

lemma available_Inl_same:
  assumes rank: "\<forall>a. \<forall>b\<in>set (commands (ch a)). rank b < (rank a :: nat)"
    and same: "sameAvailability ch ch'"
  shows "available ch' (Inl c) = available ch (Inl c)"
proof (induction "rank c" arbitrary: c rule: less_induct)
  case less
  have kids: "available ch' (Inr (commands (ch c))) = available ch (Inr (commands (ch c)))"
  proof (rule available_Inr_same)
    fix k assume "k \<in> set (commands (ch c))"
    with rank have "rank k < rank c" by blast
    then show "available ch' (Inl k) = available ch (Inl k)" by (rule less)
  qed
  from same have f: "Deprecated (ch' c) = Deprecated (ch c)" "cmdHidden (ch' c) = cmdHidden (ch c)"
    "parent (ch' c) = parent (ch c)" "Run (ch' c) = Run (ch c)" "RunE (ch' c) = RunE (ch c)"
    "commands (ch' c) = commands (ch c)" "\<And>p. helpCommand (ch' p) = helpCommand (ch p)"
    by (simp_all add: sameAvailability_def)
  show ?case
    unfolding available_Inl[of ch' c] available_Inl[of ch c] f kids ..
qed

lemma sameAvailability_coerce: "sameAvailability ch (coerceDistance ch c)"
  by (simp add: sameAvailability_def coerceDistance_def)

text \<open>The minimum distance \<open>findSuggestion\<close> leaves in the command before it asks.\<close>

definition effectiveDistance :: "Command \<Rightarrow> int" where
  "effectiveDistance c =
     (if SuggestionsMinimumDistance c \<le> 0 then 2 else SuggestionsMinimumDistance c)"

text \<open>The three reasons for which \<open>SuggestionFor\<close> suggests an available child.\<close>

definition suggested :: "(string \<Rightarrow> string \<Rightarrow> bool \<Rightarrow> int) \<Rightarrow> (string \<Rightarrow> string) \<Rightarrow>
   (string \<Rightarrow> string \<Rightarrow> bool) \<Rightarrow> int \<Rightarrow> string \<Rightarrow> Command \<Rightarrow> bool" where
  "suggested ld ToLower EqualFold minimum typedName cmd =
     (ld typedName (cmdName cmd) True \<le> minimum \<or>
      HasPrefix (ToLower (cmdName cmd)) (ToLower typedName) \<or>
      (\<exists>s\<in>set (SuggestFor cmd). EqualFold typedName s))"

lemma set_suggestionsOf:
  "set (suggestionsOf ld ToLower EqualFold c typedName cmd) =
     (if suggested ld ToLower EqualFold (SuggestionsMinimumDistance c) typedName cmd then {cmdName cmd} else {})"
  by (auto simp: suggestionsOf_def suggested_def Let_def)

lemma SuggestionsLoop_result:
  assumes "\<And>k. k \<in> set kids \<Longrightarrow> IsAvailableCommand ch k \<noteq> None"
  shows "\<exists>out. SuggestionsLoop ld ToLower EqualFold ch c typedName acc kids = Some out \<and>
           set out = set acc \<union>
             {cmdName (ch k) | k. k \<in> set kids \<and> IsAvailableCommand ch k = Some True \<and>
                suggested ld ToLower EqualFold (SuggestionsMinimumDistance (ch c)) typedName (ch k)}"
  using assms
proof (induction kids arbitrary: acc)
  case Nil
  then show ?case by simp
next
  case (Cons k kids)
  from Cons.prems[of k] obtain b where b: "IsAvailableCommand ch k = Some b" by auto
  have rest: "\<And>k. k \<in> set kids \<Longrightarrow> IsAvailableCommand ch k \<noteq> None"
    using Cons.prems by simp
  show ?case
  proof (cases b)
    case True
    from Cons.IH[OF rest, of "acc @ suggestionsOf ld ToLower EqualFold (ch c) typedName (ch k)"]
    obtain out where
      o: "SuggestionsLoop ld ToLower EqualFold ch c typedName (acc @ suggestionsOf ld ToLower EqualFold (ch c) typedName (ch k)) kids
            = Some out"
      and s: "set out = set (acc @ suggestionsOf ld ToLower EqualFold (ch c) typedName (ch k)) \<union>
             {cmdName (ch k) | k. k \<in> set kids \<and> IsAvailableCommand ch k = Some True \<and>
                suggested ld ToLower EqualFold (SuggestionsMinimumDistance (ch c)) typedName (ch k)}"
      by blast
    have "SuggestionsLoop ld ToLower EqualFold ch c typedName acc (k # kids) = Some out"
      using b True o by simp
    moreover have "set out = set acc \<union>
             {cmdName (ch k') | k'. k' \<in> set (k # kids) \<and> IsAvailableCommand ch k' = Some True \<and>
                suggested ld ToLower EqualFold (SuggestionsMinimumDistance (ch c)) typedName (ch k')}"
      unfolding s using b True by (auto simp: set_suggestionsOf)
    ultimately show ?thesis by blast
  next
    case False
    from Cons.IH[OF rest, of acc]
    obtain out where
      o: "SuggestionsLoop ld ToLower EqualFold ch c typedName acc kids = Some out"
      and s: "set out = set acc \<union>
             {cmdName (ch k) | k. k \<in> set kids \<and> IsAvailableCommand ch k = Some True \<and>
                suggested ld ToLower EqualFold (SuggestionsMinimumDistance (ch c)) typedName (ch k)}"
      by blast
    have "SuggestionsLoop ld ToLower EqualFold ch c typedName acc (k # kids) = Some out"
      using b False o by simp
    moreover have "set out = set acc \<union>
             {cmdName (ch k') | k'. k' \<in> set (k # kids) \<and> IsAvailableCommand ch k' = Some True \<and>
                suggested ld ToLower EqualFold (SuggestionsMinimumDistance (ch c)) typedName (ch k')}"
      unfolding s using b False by auto
    ultimately show ?thesis by blast
  qed
qed

lemma coerceDistance_fields:
  "SuggestionsMinimumDistance (coerceDistance ch c c) = effectiveDistance (ch c)"
  "commands (coerceDistance ch c a) = commands (ch a)"
  "a \<noteq> c \<Longrightarrow> coerceDistance ch c a = ch a"
  by (simp_all add: coerceDistance_def effectiveDistance_def)

lemma IsAvailableCommand_iff:
  "IsAvailableCommand ch c = Some True \<longleftrightarrow>
     Deprecated (ch c) = [] \<and> \<not> cmdHidden (ch c) \<and>
     \<not> (\<exists>p. parent (ch c) = Some p \<and> helpCommand (ch p) = Some c) \<and>
     (Run (ch c) \<or> RunE (ch c) \<or> HasAvailableSubCommands ch c = Some True)"
  by (auto simp: IsAvailableCommand_def HasAvailableSubCommands_def available_Inl
      split: option.splits)

text \<open>
  A root whose child \<open>list\<close> has neither \<open>Run\<close> nor \<open>RunE\<close>; a root with the runnable
  children \<open>list\<close> and \<open>ls\<close>; and a rank for the latter that falls from parent to child.
\<close>

definition plainHeap :: cmd_heap where
  "plainHeap = (\<lambda>a. newCommand [])
     (0 := (newCommand ''app'')\<lparr>commands := [1]\<rparr>,
      1 := (newCommand ''list'')\<lparr>parent := Some 0\<rparr>)"

definition sugHeap :: cmd_heap where
  "sugHeap = (\<lambda>a. newCommand [])
     (0 := (newCommand ''app'')\<lparr>commands := [1, 2]\<rparr>,
      1 := (newCommand ''list'')\<lparr>parent := Some 0, Run := True\<rparr>,
      2 := (newCommand ''ls'')\<lparr>parent := Some 0, Run := True\<rparr>)"

definition sugRank :: "caddr \<Rightarrow> nat" where
  "sugRank a = (if a = 0 then 1 else 0)"

text \<open>
  Claim C5, amended. On a heap whose children relation has a rank that falls from parent
  to child, and for a command with suggestions enabled, \<open>findSuggestion\<close> returns, and
  renders the list \<open>SuggestionFor\<close> computes after the minimum distance was set to 2
  where it was 0 or less. A name is in that list exactly when it is the name of a child
  that \<open>IsAvailableCommand\<close> accepts and whose distance \<open>ld\<close> to the token, case ignored,
  is at most that minimum, or whose name lowered by \<open>strings.ToLower\<close> starts with the
  token so lowered, or one of whose \<open>SuggestFor\<close> entries is the token under
  \<open>strings.EqualFold\<close>. \<open>IsAvailableCommand\<close> accepts a command exactly when it is not
  deprecated, not hidden, not its parent's help command, and is runnable or has an
  available subcommand. \<open>ld\<close>, \<open>ToLower\<close> and \<open>EqualFold\<close> are any functions.
\<close>

theorem suggestions_for_mistyped_token:
  assumes rank: "\<forall>a. \<forall>b\<in>set (commands (ch a)). rank b < (rank a :: nat)"
    and enabled: "\<not> DisableSuggestions (ch c)"
  shows "\<exists>suggestions.
     findSuggestion quote ld ToLower EqualFold ch c typedName
       = Some (renderSuggestions quote suggestions, coerceDistance ch c) \<and>
     SuggestionFor ld ToLower EqualFold (coerceDistance ch c) c typedName = Some suggestions \<and>
     (\<forall>n. n \<in> set suggestions \<longleftrightarrow>
        (\<exists>cmd\<in>set (commands (ch c)). cmdName (ch cmd) = n \<and>
            IsAvailableCommand ch cmd = Some True \<and>
            suggested ld ToLower EqualFold (effectiveDistance (ch c)) typedName (ch cmd))) \<and>
     (\<forall>cmd. IsAvailableCommand ch cmd = Some True \<longleftrightarrow>
        Deprecated (ch cmd) = [] \<and> \<not> cmdHidden (ch cmd) \<and>
        \<not> (\<exists>p. parent (ch cmd) = Some p \<and> helpCommand (ch p) = Some cmd) \<and>
        (Run (ch cmd) \<or> RunE (ch cmd) \<or> HasAvailableSubCommands ch cmd = Some True))"
proof -
  let ?ch = "coerceDistance ch c"
  let ?kids = "commands (ch c)"
  have same: "sameAvailability ch ?ch" by (rule sameAvailability_coerce)
  have av: "IsAvailableCommand ?ch k = IsAvailableCommand ch k" for k
    unfolding IsAvailableCommand_def by (rule available_Inl_same[OF rank same])
  have total: "IsAvailableCommand ?ch k \<noteq> None" for k
    using available_Inl_total[OF rank, of k] av[of k] by (simp add: IsAvailableCommand_def)
  have notself: "k \<noteq> c" if "k \<in> set ?kids" for k
    using rank that by fastforce
  from SuggestionsLoop_result[of ?kids ?ch ld ToLower EqualFold c typedName "[]", OF total]
  obtain out where
    o: "SuggestionsLoop ld ToLower EqualFold ?ch c typedName [] ?kids = Some out" and
    s: "set out =
         {cmdName (?ch k) | k. k \<in> set ?kids \<and> IsAvailableCommand ?ch k = Some True \<and>
            suggested ld ToLower EqualFold (SuggestionsMinimumDistance (?ch c)) typedName (?ch k)}"
    by auto
  have sf: "SuggestionFor ld ToLower EqualFold ?ch c typedName = Some out"
    using o by (simp add: SuggestionFor_def coerceDistance_fields)
  have fs: "findSuggestion quote ld ToLower EqualFold ch c typedName = Some (renderSuggestions quote out, ?ch)"
    using enabled sf by (simp add: findSuggestion_def Let_def)
  have mem: "n \<in> set out \<longleftrightarrow>
        (\<exists>cmd\<in>set ?kids. cmdName (ch cmd) = n \<and> IsAvailableCommand ch cmd = Some True \<and>
            suggested ld ToLower EqualFold (effectiveDistance (ch c)) typedName (ch cmd))" for n
  proof -
    have kid: "coerceDistance ch c k = ch k" if "k \<in> set ?kids" for k
      using notself[OF that] by (rule coerceDistance_fields(3))
    show ?thesis
      unfolding s av coerceDistance_fields(1)
      by (auto simp: kid) (metis kid)
  qed
  show ?thesis
    using fs sf mem IsAvailableCommand_iff by blast
qed

lemmas suggest_example_defs =
  plainHeap_def sugHeap_def sugRank_def newCommand_def newFlagSet_def

lemmas suggest_eval =
  IsAvailableCommand_def available_Inl available_Nil available_Cons SuggestionFor_def
  coerceDistance_def suggestionsOf_def ldSpec_def asciiToLower_def asciiLowerChar_def cmdName_def
  HasPrefix_def asciiEqualFold_def

text \<open>
  Claim C5 as stated fails: the child \<open>list\<close> is not hidden, not deprecated and not the
  help command, its distance to \<open>lsit\<close> is 2, and it is not suggested, because it is
  neither runnable nor has an available subcommand.
\<close>

theorem unrunnable_child_is_not_suggested:
  "Deprecated (plainHeap 1) = [] \<and> \<not> cmdHidden (plainHeap 1) \<and>
   helpCommand (plainHeap 0) \<noteq> Some 1 \<and> \<not> DisableSuggestions (plainHeap 0) \<and>
   ldSpec ''lsit'' (cmdName (plainHeap 1)) True \<le> 2 \<and>
   SuggestionFor ldSpec asciiToLower asciiEqualFold (coerceDistance plainHeap 0) 0 ''lsit'' = Some []"
  by (simp add: suggest_eval suggest_example_defs)

lemma sug_facts:
  "\<forall>a. \<forall>b\<in>set (commands (sugHeap a)). sugRank b < sugRank a"
  "\<not> DisableSuggestions (sugHeap 0)"
  "1 \<in> set (commands (sugHeap 0))"
  "cmdName (sugHeap 1) = ''list''"
  "IsAvailableCommand sugHeap 1 = Some True"
  "effectiveDistance (sugHeap 0) = 2"
  "ldSpec ''lsit'' ''list'' True = 2"
  by (simp_all add: suggest_eval suggest_example_defs effectiveDistance_def)

theorem suggestions_for_mistyped_token_witness:
  "\<not> DisableSuggestions (sugHeap 0) \<and>
   (\<exists>suggestions.
      findSuggestion id ldSpec asciiToLower asciiEqualFold sugHeap 0 ''lsit''
        = Some (renderSuggestions id suggestions, coerceDistance sugHeap 0) \<and>
      ''list'' \<in> set suggestions)"
proof -
  from suggestions_for_mistyped_token[OF sug_facts(1) sug_facts(2), of id ldSpec asciiToLower asciiEqualFold "''lsit''"]
  obtain suggestions where
    f: "findSuggestion id ldSpec asciiToLower asciiEqualFold sugHeap 0 ''lsit''
          = Some (renderSuggestions id suggestions, coerceDistance sugHeap 0)" and
    m: "\<And>n. n \<in> set suggestions \<longleftrightarrow>
          (\<exists>cmd\<in>set (commands (sugHeap 0)). cmdName (sugHeap cmd) = n \<and>
              IsAvailableCommand sugHeap cmd = Some True \<and>
              suggested ldSpec asciiToLower asciiEqualFold (effectiveDistance (sugHeap 0)) ''lsit'' (sugHeap cmd))"
    by (elim exE conjE) blast
  have "suggested ldSpec asciiToLower asciiEqualFold (effectiveDistance (sugHeap 0)) ''lsit'' (sugHeap 1)"
    unfolding suggested_def sug_facts by simp
  with sug_facts have "''list'' \<in> set suggestions" unfolding m by blast
  with f sug_facts(2) show ?thesis by blast
qed

section \<open>Child resolution in \<open>Find\<close>\<close>

text \<open>\<open>findNext\<close> returns one of the children, and \<open>Find\<close> returns on a heap whose
  children relation has a rank that falls from parent to child.\<close>

lemma singleMatch_member: "singleMatch ms = Some a \<Longrightarrow> a \<in> set ms"
  by (auto simp: singleMatch_def split: list.splits)

lemma findNext_member:
  assumes "fst (findNext pm ch c tok) = Some cmd"
  shows "cmd \<in> set (commands (ch c))"
proof (cases "find (\<lambda>a. exactMatch tok (ch a)) (commands (ch c))")
  case (Some a)
  with assms have "a = cmd" by (simp add: findNext_def findNextLoop_result)
  with Some show ?thesis by (auto dest: find_Some_holds)
next
  case None
  with assms have "singleMatch (if pm then filter (\<lambda>a. prefixMatch tok (ch a)) (commands (ch c)) else [])
      = Some cmd"
    by (simp add: findNext_def findNextLoop_result)
  from singleMatch_member[OF this] show ?thesis by (auto split: if_splits)
qed

lemma sameButCalledAs_fields:
  assumes "sameButCalledAs ch ch'"
  shows "commands (ch' a) = commands (ch a)" "parent (ch' a) = parent (ch a)"
    "args (ch' a) = args (ch a)" "flags (ch' a) = flags (ch a)"
    "cmdName (ch' a) = cmdName (ch a)" "displayName (ch' a) = displayName (ch a)"
proof -
  from assms have e: "ch' a = (ch a)\<lparr>commandCalledAs_name := commandCalledAs_name (ch' a)\<rparr>"
    by (simp add: sameButCalledAs_def)
  show "commands (ch' a) = commands (ch a)" by (subst e) simp
  show "parent (ch' a) = parent (ch a)" by (subst e) simp
  show "args (ch' a) = args (ch a)" by (subst e) simp
  show "flags (ch' a) = flags (ch a)" by (subst e) simp
  show "cmdName (ch' a) = cmdName (ch a)" by (subst e) (simp add: cmdName_def)
  show "displayName (ch' a) = displayName (ch a)"
    by (subst e) (simp add: displayName_def cmdName_def split: option.splits)
qed

lemma findNext_frame: "sameButCalledAs ch (snd (findNext pm ch c tok))"
  by (simp add: findNext_def findNextLoop_frame)

lemma innerfind_total:
  assumes "\<forall>a. \<forall>b\<in>set (commands (ch a)). rank b < (rank a :: nat)"
  shows "\<exists>cf a ch'. innerfind pm fh ch c as = Some ((cf, a), ch') \<and> sameButCalledAs ch ch'"
  using assms
proof (induction "rank c" arbitrary: c ch as rule: less_induct)
  case less
  show ?case
  proof (cases "stripFlag fh as (ch c) = []")
    case True
    then have "innerfind pm fh ch c as = Some ((c, as), ch)"
      by (subst innerfind.simps) (simp add: Let_def)
    then show ?thesis using sameButCalledAs_refl by blast
  next
    case False
    let ?tok = "hd (stripFlag fh as (ch c))"
    let ?ch1 = "snd (findNext pm ch c ?tok)"
    have fr: "sameButCalledAs ch ?ch1" by (rule findNext_frame)
    show ?thesis
    proof (cases "fst (findNext pm ch c ?tok)")
      case None
      then have "innerfind pm fh ch c as = Some ((c, as), ?ch1)"
        using False
        by (subst innerfind.simps) (cases "findNext pm ch c ?tok", simp add: Let_def)
      with fr show ?thesis by blast
    next
      case (Some cmd)
      then have step: "innerfind pm fh ch c as =
          innerfind pm fh ?ch1 cmd (argsMinusFirstX fh (?ch1 c) as ?tok)"
        using False
        by (subst innerfind.simps) (cases "findNext pm ch c ?tok", simp add: Let_def)
      from findNext_member[OF Some] less.prems have lt: "rank cmd < rank c" by blast
      have rk: "\<forall>a. \<forall>b\<in>set (commands (?ch1 a)). rank b < rank a"
        using less.prems by (simp add: sameButCalledAs_fields(1)[OF fr])
      from less.hyps[OF lt rk, of "argsMinusFirstX fh (?ch1 c) as ?tok"]
      obtain cf a ch' where
        r: "innerfind pm fh ?ch1 cmd (argsMinusFirstX fh (?ch1 c) as ?tok) = Some ((cf, a), ch')"
        and fr': "sameButCalledAs ?ch1 ch'"
        by blast
      from sameButCalledAs_trans[OF fr fr'] r show ?thesis unfolding step by blast
    qed
  qed
qed

lemma CommandPath_root: "parent (ch c) = None \<Longrightarrow> CommandPath ch c = Some (displayName (ch c))"
  by (subst CommandPath.simps) simp

lemma findSuggestion_total:
  assumes rank: "\<forall>a. \<forall>b\<in>set (commands (ch a)). rank b < (rank a :: nat)"
  shows "findSuggestion quote ld ToLower EqualFold ch c arg \<noteq> None"
proof (cases "DisableSuggestions (ch c)")
  case True
  then show ?thesis by (simp add: findSuggestion_def)
next
  case False
  let ?ch = "coerceDistance ch c"
  have rk: "\<forall>a. \<forall>b\<in>set (commands (?ch a)). rank b < rank a"
    using rank by (simp add: coerceDistance_fields(2))
  have total: "IsAvailableCommand ?ch k \<noteq> None" for k
    unfolding IsAvailableCommand_def by (rule available_Inl_total[OF rk])
  from SuggestionsLoop_result[of "commands (?ch c)" ?ch ld ToLower EqualFold c arg "[]", OF total]
  obtain out where "SuggestionFor ld ToLower EqualFold ?ch c arg = Some out"
    by (auto simp: SuggestionFor_def)
  with False show ?thesis by (simp add: findSuggestion_def Let_def)
qed

lemma legacyArgs_total:
  assumes rank: "\<forall>a. \<forall>b\<in>set (commands (ch a)). rank b < (rank a :: nat)"
  shows "legacyArgs quote ld ToLower EqualFold ch c as \<noteq> None"
  using findSuggestion_total[OF rank, of quote ld ToLower EqualFold c "hd as"]
  by (auto simp: legacyArgs_def CommandPath_root split: option.splits)

lemma Find_total:
  assumes rank: "\<forall>a. \<forall>b\<in>set (commands (ch a)). rank b < (rank a :: nat)"
  shows "Find quote ld ToLower EqualFold pm fh ch c as \<noteq> None"
proof -
  from innerfind_total[OF rank, of pm fh c as] obtain cf a ch1 where
    r: "innerfind pm fh ch c as = Some ((cf, a), ch1)" and fr: "sameButCalledAs ch ch1"
    by blast
  have rk: "\<forall>a. \<forall>b\<in>set (commands (ch1 a)). rank b < rank a"
    using rank by (simp add: sameButCalledAs_fields(1)[OF fr])
  from legacyArgs_total[OF rk, of quote ld ToLower EqualFold cf "stripFlag fh a (ch1 cf)"]
  show ?thesis by (auto simp: Find_def r split: option.splits)
qed

lemma Find_no_match:
  assumes ne: "stripFlag fh as (ch c) \<noteq> []" and tok: "hd (stripFlag fh as (ch c)) = tok"
    and none: "fst (findNext pm ch c tok) = None"
  shows "innerfind pm fh ch c as = Some ((c, as), snd (findNext pm ch c tok))"
    and "Find quote ld ToLower EqualFold pm fh ch c as =
      (if args (ch c) = None \<and> commands (ch c) \<noteq> [] \<and> parent (ch c) = None
       then map_option
              (\<lambda>(s, ch2). ((c, as, Some (UnknownCommand tok (displayName (ch c)) s)), ch2))
              (findSuggestion quote ld ToLower EqualFold (snd (findNext pm ch c tok)) c tok)
       else Some ((c, as, None), snd (findNext pm ch c tok)))"
proof -
  let ?ch1 = "snd (findNext pm ch c tok)"
  have fr: "sameButCalledAs ch ?ch1" by (rule findNext_frame)
  note f = sameButCalledAs_fields[OF fr]
  show i: "innerfind pm fh ch c as = Some ((c, as), ?ch1)"
    using ne tok none by (subst innerfind.simps) (cases "findNext pm ch c tok", simp add: Let_def)
  have sf: "stripFlag fh as (?ch1 c) = stripFlag fh as (ch c)"
    by (simp add: stripFlag_def f)
  show "Find quote ld ToLower EqualFold pm fh ch c as =
      (if args (ch c) = None \<and> commands (ch c) \<noteq> [] \<and> parent (ch c) = None
       then map_option
              (\<lambda>(s, ch2). ((c, as, Some (UnknownCommand tok (displayName (ch c)) s)), ch2))
              (findSuggestion quote ld ToLower EqualFold ?ch1 c tok)
       else Some ((c, as, None), ?ch1))"
    using ne tok
    by (auto simp: Find_def i legacyArgs_def sf f CommandPath_root split: option.splits)
qed

lemma Find_descend:
  assumes ne: "stripFlag fh as (ch c) \<noteq> []" and tok: "hd (stripFlag fh as (ch c)) = tok"
    and some: "fst (findNext pm ch c tok) = Some cmd"
  shows "innerfind pm fh ch c as =
      innerfind pm fh (snd (findNext pm ch c tok)) cmd
        (argsMinusFirstX fh (snd (findNext pm ch c tok) c) as tok)"
    and "Find quote ld ToLower EqualFold pm fh ch c as =
      Find quote ld ToLower EqualFold pm fh (snd (findNext pm ch c tok)) cmd
        (argsMinusFirstX fh (snd (findNext pm ch c tok) c) as tok)"
proof -
  show i: "innerfind pm fh ch c as =
      innerfind pm fh (snd (findNext pm ch c tok)) cmd
        (argsMinusFirstX fh (snd (findNext pm ch c tok) c) as tok)"
    using ne tok some by (subst innerfind.simps) (cases "findNext pm ch c tok", simp add: Let_def)
  show "Find quote ld ToLower EqualFold pm fh ch c as =
      Find quote ld ToLower EqualFold pm fh (snd (findNext pm ch c tok)) cmd
        (argsMinusFirstX fh (snd (findNext pm ch c tok) c) as tok)"
    unfolding Find_def i ..
qed

text \<open>A root whose child \<open>status\<close> has the alias \<open>st\<close> and whose child \<open>build\<close> has the
  alias \<open>compile\<close>, next to \<open>start\<close>; and a rank for roots with leaves as children.\<close>

definition aliasHeap :: cmd_heap where
  "aliasHeap = (\<lambda>a. newCommand [])
     (0 := (newCommand ''app'')\<lparr>commands := [1, 2, 3]\<rparr>,
      1 := (newCommand ''status'')\<lparr>Aliases := [''st''], parent := Some 0, Run := True\<rparr>,
      2 := (newCommand ''start'')\<lparr>parent := Some 0, Run := True\<rparr>,
      3 := (newCommand ''build'')\<lparr>Aliases := [''compile''], parent := Some 0, Run := True\<rparr>)"

definition treeRank :: "caddr \<Rightarrow> nat" where
  "treeRank a = (if a = 0 then 1 else 0)"

text \<open>
  Claim C1. With prefix matching enabled, \<open>findNext\<close> returns the first child whose name
  or alias is the token; when there is none it returns the child whose name or alias
  begins with the token if exactly one child has such a name or alias, and nil
  otherwise, so nil when two or more have. It changes nothing but the recorded
  \<open>commandCalledAs.name\<close> of children. When the token is the first that \<open>stripFlag\<close>
  leaves: if \<open>findNext\<close> returns nil, \<open>innerfind\<close> returns the current command and its
  arguments as they came, and \<open>Find\<close> returns them with a nil error, unless the command
  is a root whose \<open>args\<close> is nil and that has subcommands, for which \<open>legacyArgs\<close>
  reports the token as an unknown command, with the suggestions; if \<open>findNext\<close> returns
  a child, \<open>innerfind\<close> and \<open>Find\<close> go on in that child with what \<open>argsMinusFirstX\<close>
  leaves of the arguments. On a heap whose children relation has a rank that falls from
  parent to child, \<open>Find\<close> returns.
\<close>

theorem findNext_exact_then_unique_prefix:
  "fst (findNext True ch c tok) =
     (case find (\<lambda>a. exactMatch tok (ch a)) (commands (ch c)) of
        Some a \<Rightarrow> Some a
      | None \<Rightarrow> singleMatch (filter (\<lambda>a. prefixMatch tok (ch a)) (commands (ch c)))) \<and>
   (find (\<lambda>a. exactMatch tok (ch a)) (commands (ch c)) = None \<and>
    length (filter (\<lambda>a. prefixMatch tok (ch a)) (commands (ch c))) \<ge> 2 \<longrightarrow>
      fst (findNext True ch c tok) = None) \<and>
   sameButCalledAs ch (snd (findNext True ch c tok)) \<and>
   (\<forall>a. a \<notin> set (commands (ch c)) \<longrightarrow> snd (findNext True ch c tok) a = ch a) \<and>
   (stripFlag fh innerArgs (ch c) \<noteq> [] \<and> hd (stripFlag fh innerArgs (ch c)) = tok \<longrightarrow>
      (fst (findNext True ch c tok) = None \<longrightarrow>
         innerfind True fh ch c innerArgs = Some ((c, innerArgs), snd (findNext True ch c tok)) \<and>
         Find quote ld ToLower EqualFold True fh ch c innerArgs =
           (if args (ch c) = None \<and> commands (ch c) \<noteq> [] \<and> parent (ch c) = None
            then map_option
                   (\<lambda>(s, ch2).
                      ((c, innerArgs, Some (UnknownCommand tok (displayName (ch c)) s)), ch2))
                   (findSuggestion quote ld ToLower EqualFold
                      (snd (findNext True ch c tok)) c tok)
            else Some ((c, innerArgs, None), snd (findNext True ch c tok)))) \<and>
      (\<forall>cmd. fst (findNext True ch c tok) = Some cmd \<longrightarrow>
         cmd \<in> set (commands (ch c)) \<and>
         innerfind True fh ch c innerArgs =
           innerfind True fh (snd (findNext True ch c tok)) cmd
             (argsMinusFirstX fh (snd (findNext True ch c tok) c) innerArgs tok) \<and>
         Find quote ld ToLower EqualFold True fh ch c innerArgs =
           Find quote ld ToLower EqualFold True fh (snd (findNext True ch c tok)) cmd
             (argsMinusFirstX fh (snd (findNext True ch c tok) c) innerArgs tok))) \<and>
   ((\<forall>a. \<forall>b\<in>set (commands (ch a)). rank b < (rank a :: nat)) \<longrightarrow>
      Find quote ld ToLower EqualFold True fh ch c innerArgs \<noteq> None \<and>
      findSuggestion quote ld ToLower EqualFold (snd (findNext True ch c tok)) c tok \<noteq> None)"
proof -
  let ?kids = "commands (ch c)"
  let ?r = "findNext True ch c tok"
  have res: "fst ?r =
     (case find (\<lambda>a. exactMatch tok (ch a)) ?kids of
        Some a \<Rightarrow> Some a
      | None \<Rightarrow> singleMatch (filter (\<lambda>a. prefixMatch tok (ch a)) ?kids))"
    by (simp add: findNext_def findNextLoop_result split: option.splits)
  have amb: "fst ?r = None"
    if "find (\<lambda>a. exactMatch tok (ch a)) ?kids = None"
      "length (filter (\<lambda>a. prefixMatch tok (ch a)) ?kids) \<ge> 2"
  proof -
    from that(2) obtain x y zs where "filter (\<lambda>a. prefixMatch tok (ch a)) ?kids = x # y # zs"
      by (cases "filter (\<lambda>a. prefixMatch tok (ch a)) ?kids" rule: remdups_adj.cases) auto
    with that(1) res show ?thesis by (simp add: singleMatch_def)
  qed
  have frame: "sameButCalledAs ch (snd ?r)" by (rule findNext_frame)
  have outside: "\<forall>a. a \<notin> set ?kids \<longrightarrow> snd ?r a = ch a"
    by (simp add: findNext_def findNextLoop_outside)
  have total: "Find quote ld ToLower EqualFold True fh ch c innerArgs \<noteq> None \<and>
      findSuggestion quote ld ToLower EqualFold (snd ?r) c tok \<noteq> None"
    if rk: "\<forall>a. \<forall>b\<in>set (commands (ch a)). rank b < (rank a :: nat)"
  proof -
    have rk': "\<forall>a. \<forall>b\<in>set (commands (snd ?r a)). rank b < rank a"
      using rk by (simp add: sameButCalledAs_fields(1)[OF frame])
    show ?thesis using Find_total[OF rk] findSuggestion_total[OF rk'] by blast
  qed
  show ?thesis
    using res amb frame outside total Find_no_match[of fh innerArgs ch c tok True]
      Find_descend[of fh innerArgs ch c tok True] findNext_member[of True ch c tok]
    by blast
qed

lemmas resolve_example_defs2 = resolve_example_defs aliasHeap_def

lemma amb_rank: "\<forall>a. \<forall>b\<in>set (commands (ambHeap a)). treeRank b < treeRank a"
  by (simp add: resolve_example_defs2 treeRank_def)

lemma amb_root:
  "args (ambHeap 0) = None" "commands (ambHeap 0) \<noteq> []" "parent (ambHeap 0) = None"
  "displayName (ambHeap 0) = ''app''"
  by (simp_all add: resolve_example_defs2 displayName_def cmdName_def)

lemma amb_after:
  "snd (findNext True ambHeap 0 ''sta'') =
     ambHeap(1 := (ambHeap 1)\<lparr>commandCalledAs_name := ''status''\<rparr>,
             2 := (ambHeap 2)\<lparr>commandCalledAs_name := ''start''\<rparr>)"
  by (simp add: findNext_def hasNameOrAliasPrefix_def commandNameMatches_def cmdName_def
      HasPrefix_def resolve_example_defs2)

lemma amb_suggestion:
  "findSuggestion id ldSpec asciiToLower asciiEqualFold (snd (findNext True ambHeap 0 ''sta'')) 0 ''sta''
     = Some (renderSuggestions id [''status'', ''start''],
             coerceDistance (snd (findNext True ambHeap 0 ''sta'')) 0)"
  unfolding amb_after
  by (simp add: findSuggestion_def Let_def suggest_eval resolve_example_defs2)

lemma uniq_facts2:
  "stripFlag noFlags [''stat''] (uniqHeap 0) = [''stat'']"
  "snd (findNext True uniqHeap 0 ''stat'') 0 = uniqHeap 0"
  "argsMinusFirstX noFlags (uniqHeap 0) [''stat''] ''stat'' = []"
  by (simp_all add: resolve_eval resolve_example_defs2 findNext_def hasNameOrAliasPrefix_def
      argsMinusFirstX_def)

lemma uniq_leaf:
  "Find id ldSpec asciiToLower asciiEqualFold True noFlags ch 1 [] =
     (if args (ch 1) = None
      then map_option (\<lambda>(err, ch2). ((1, [], err), ch2))
             (legacyArgs id ldSpec asciiToLower asciiEqualFold ch 1 (stripFlag noFlags [] (ch 1)))
      else Some ((1, [], None), ch))"
proof -
  have "innerfind True noFlags ch 1 [] = Some ((1, []), ch)"
    by (subst innerfind.simps) (simp add: stripFlag_def)
  then show ?thesis by (simp add: Find_def split: option.splits)
qed

lemma alias_rank: "\<forall>a. \<forall>b\<in>set (commands (aliasHeap a)). treeRank b < treeRank a"
  by (simp add: resolve_example_defs2 treeRank_def)

lemma alias_facts:
  "find (\<lambda>a. exactMatch ''st'' (aliasHeap a)) (commands (aliasHeap 0)) = Some 1"
  "filter (\<lambda>a. prefixMatch ''st'' (aliasHeap a)) (commands (aliasHeap 0)) = [1, 2]"
  "find (\<lambda>a. exactMatch ''comp'' (aliasHeap a)) (commands (aliasHeap 0)) = None"
  "filter (\<lambda>a. prefixMatch ''comp'' (aliasHeap a)) (commands (aliasHeap 0)) = [3]"
  "find (\<lambda>a. exactMatch ''sta'' (aliasHeap a)) (commands (aliasHeap 0)) = None"
  "filter (\<lambda>a. prefixMatch ''sta'' (aliasHeap a)) (commands (aliasHeap 0)) = [1, 2]"
  by (simp_all add: resolve_eval resolve_example_defs2)

theorem findNext_exact_then_unique_prefix_witness:
  "fst (findNext True ambHeap 0 ''sta'') = None \<and>
   map_option fst (innerfind True noFlags ambHeap 0 [''sta'']) = Some (0, [''sta'']) \<and>
   snd (findNext True ambHeap 0 ''sta'') 0 = ambHeap 0 \<and>
   map_option fst (Find id ldSpec asciiToLower asciiEqualFold True noFlags ambHeap 0 [''sta''])
     = Some (0, [''sta''],
         Some (UnknownCommand ''sta'' ''app'' (renderSuggestions id [''status'', ''start'']))) \<and>
   fst (findNext True uniqHeap 0 ''stat'') = Some 1 \<and>
   map_option fst (Find id ldSpec asciiToLower asciiEqualFold True noFlags uniqHeap 0 [''stat''])
     = Some (1, [], None) \<and>
   fst (findNext True aliasHeap 0 ''st'') = Some 1 \<and>
   fst (findNext True aliasHeap 0 ''comp'') = Some 3 \<and>
   fst (findNext True aliasHeap 0 ''sta'') = None \<and>
   Find id ldSpec asciiToLower asciiEqualFold True noFlags aliasHeap 0 [''--v'', ''st'', ''x'']
     \<noteq> None"
proof -
  note amb = findNext_exact_then_unique_prefix[of ambHeap 0 "''sta''" noFlags "[''sta'']" id ldSpec asciiToLower
      asciiEqualFold treeRank]
  note uniq = findNext_exact_then_unique_prefix[of uniqHeap 0 "''stat''" noFlags "[''stat'']" id ldSpec asciiToLower
      asciiEqualFold treeRank]
  have none: "fst (findNext True ambHeap 0 ''sta'') = None"
    using amb by (simp add: amb_facts singleMatch_def)
  have "0 \<notin> set (commands (ambHeap 0))" by (simp add: resolve_example_defs2)
  with amb have same: "snd (findNext True ambHeap 0 ''sta'') 0 = ambHeap 0" by blast
  have inner: "innerfind True noFlags ambHeap 0 [''sta'']
      = Some ((0, [''sta'']), snd (findNext True ambHeap 0 ''sta''))"
    using amb none by (simp add: amb_facts)
  have find: "map_option fst
      (Find id ldSpec asciiToLower asciiEqualFold True noFlags ambHeap 0 [''sta''])
     = Some (0, [''sta''],
         Some (UnknownCommand ''sta'' ''app'' (renderSuggestions id [''status'', ''start''])))"
    using amb none by (simp add: amb_facts amb_root amb_suggestion)
  have one: "fst (findNext True uniqHeap 0 ''stat'') = Some 1"
    using uniq by (simp add: uniq_facts singleMatch_def)
  have "Find id ldSpec asciiToLower asciiEqualFold True noFlags uniqHeap 0 [''stat''] =
      Find id ldSpec asciiToLower asciiEqualFold True noFlags
        (snd (findNext True uniqHeap 0 ''stat'')) 1 []"
    using uniq one by (simp add: uniq_facts2)
  also have "map_option fst \<dots> = Some (1, [], None)"
    unfolding uniq_leaf
    by (simp add: resolve_eval resolve_example_defs2 findNext_def hasNameOrAliasPrefix_def
        legacyArgs_def)
  finally have leaf: "map_option fst
      (Find id ldSpec asciiToLower asciiEqualFold True noFlags uniqHeap 0 [''stat''])
     = Some (1, [], None)" .
  have a1: "fst (findNext True aliasHeap 0 ''st'') = Some 1"
    using findNext_exact_then_unique_prefix[of aliasHeap 0 "''st''"] by (simp add: alias_facts)
  have a2: "fst (findNext True aliasHeap 0 ''comp'') = Some 3"
    using findNext_exact_then_unique_prefix[of aliasHeap 0 "''comp''"] by (simp add: alias_facts singleMatch_def)
  have a3: "fst (findNext True aliasHeap 0 ''sta'') = None"
    using findNext_exact_then_unique_prefix[of aliasHeap 0 "''sta''"] by (simp add: alias_facts singleMatch_def)
  have a4: "Find id ldSpec asciiToLower asciiEqualFold True noFlags aliasHeap 0
      [''--v'', ''st'', ''x''] \<noteq> None"
    using findNext_exact_then_unique_prefix[of aliasHeap 0 "''st''" noFlags
        "[''--v'', ''st'', ''x'']" id ldSpec asciiToLower asciiEqualFold treeRank] alias_rank
    by blast
  from none inner same find one leaf a1 a2 a3 a4 show ?thesis by simp
qed

section \<open>The status tables as maps\<close>

text \<open>The table one annotation kind gets from the visit, and a status table read as a
  map from group to map from name to state.\<close>

definition tableOf :: "flag_heap \<Rightarrow> FlagSet \<Rightarrow> string \<Rightarrow> faddr list \<Rightarrow> groupStatus \<Rightarrow> groupStatus" where
  "tableOf h fs key visited T =
     fold (\<lambda>a T. processFlagGroupAnnotation h fs (h a) key T) visited T"

definition view :: "groupStatus \<Rightarrow> string \<Rightarrow> (string \<rightharpoonup> bool) option" where
  "view T g = map_option map_of (map_of T g)"

definition initMap :: "string list \<Rightarrow> (string \<rightharpoonup> bool)" where
  "initMap names = (\<lambda>x. if x \<in> set names then Some False else None)"

definition evolve ::
  "flag_heap \<Rightarrow> FlagSet \<Rightarrow> string \<Rightarrow> Flag \<Rightarrow> (string \<rightharpoonup> bool) option \<Rightarrow> (string \<rightharpoonup> bool) option" where
  "evolve h fs g pf x =
     (case x of
        None \<Rightarrow> if hasAllFlags h fs (Split g)
                then Some ((initMap (Split g))(Name pf \<mapsto> Changed pf)) else None
      | Some m \<Rightarrow> Some (m(Name pf \<mapsto> Changed pf)))"

lemma visitGroups_tables:
  "visitGroups h fs visited (g, o1, m) =
     (tableOf h fs requiredAsGroupAnnotation visited g,
      tableOf h fs oneRequiredAnnotation visited o1,
      tableOf h fs mutuallyExclusiveAnnotation visited m)"
  by (induction visited arbitrary: g o1 m) (simp_all add: tableOf_def)

lemma map_of_initStatus:
  "map_of (initStatus names st) = (\<lambda>x. if x \<in> set names then Some False else map_of st x)"
  by (induction names arbitrary: st) (auto simp: AList.update_conv')

lemma evolve_idem: "evolve h fs g pf (evolve h fs g pf x) = evolve h fs g pf x"
  by (auto simp: evolve_def split: option.splits)

lemma view_update: "view (AList.update g st T) g' = (if g' = g then Some (map_of st) else view T g')"
  by (simp add: view_def AList.update_conv')

lemma processGroups_view:
  "view (processGroups h fs pf gs T) g =
     (if g \<in> set gs then evolve h fs g pf (view T g) else view T g)"
proof (induction gs arbitrary: T)
  case Nil
  show ?case by simp
next
  case (Cons g0 gs)
  let ?T1 = "case map_of T g0 of
        None \<Rightarrow>
          (if \<not> hasAllFlags h fs (Split g0) then T
           else AList.update g0
                  (AList.update (Name pf) (Changed pf) (initStatus (Split g0) [])) T)
      | Some st \<Rightarrow> AList.update g0 (AList.update (Name pf) (Changed pf) st) T"
  have step: "processGroups h fs pf (g0 # gs) T = processGroups h fs pf gs ?T1"
    by (simp add: Let_def split: option.splits)
  have v1: "view ?T1 g = (if g = g0 then evolve h fs g0 pf (view T g0) else view T g)"
    by (auto simp: view_update evolve_def view_def AList.update_conv' map_of_initStatus
        initMap_def split: option.splits)
  show ?case
    unfolding step Cons.IH v1 by (auto simp: evolve_idem)
qed

lemma processFlagGroupAnnotation_view:
  "view (processFlagGroupAnnotation h fs pf key T) g =
     (if g \<in> set (annotationOf pf key) then evolve h fs g pf (view T g) else view T g)"
  by (simp add: processFlagGroupAnnotation_def annotationOf_def processGroups_view
      split: option.splits)

text \<open>The visited flags that carry a group under an annotation kind.\<close>

definition carriers :: "flag_heap \<Rightarrow> string \<Rightarrow> string \<Rightarrow> faddr list \<Rightarrow> faddr list" where
  "carriers h key g visited = filter (\<lambda>a. g \<in> set (annotationOf (h a) key)) visited"

lemma tableOf_view:
  "view (tableOf h fs key visited T) g =
     fold (\<lambda>a. evolve h fs g (h a)) (carriers h key g visited) (view T g)"
proof (induction visited arbitrary: T)
  case Nil
  show ?case by (simp add: tableOf_def carriers_def)
next
  case (Cons a visited)
  have "view (tableOf h fs key (a # visited) T) g =
        view (tableOf h fs key visited (processFlagGroupAnnotation h fs (h a) key T)) g"
    by (simp add: tableOf_def)
  also have "\<dots> = fold (\<lambda>a. evolve h fs g (h a)) (carriers h key g visited)
        (view (processFlagGroupAnnotation h fs (h a) key T) g)"
    by (rule Cons.IH)
  also have "\<dots> = fold (\<lambda>a. evolve h fs g (h a)) (carriers h key g (a # visited)) (view T g)"
    by (simp add: processFlagGroupAnnotation_view carriers_def)
  finally show ?case .
qed

definition writes :: "flag_heap \<Rightarrow> faddr list \<Rightarrow> (string \<rightharpoonup> bool) \<Rightarrow> (string \<rightharpoonup> bool)" where
  "writes h cs m = fold (\<lambda>a m. m(Name (h a) \<mapsto> Changed (h a))) cs m"

lemma fold_evolve_Some:
  "fold (\<lambda>a. evolve h fs g (h a)) cs (Some m) = Some (writes h cs m)"
  by (induction cs arbitrary: m) (simp_all add: evolve_def writes_def)

lemma fold_evolve_None:
  "fold (\<lambda>a. evolve h fs g (h a)) cs None =
     (if cs = [] \<or> \<not> hasAllFlags h fs (Split g) then None
      else Some (writes h cs (initMap (Split g))))"
proof (cases cs)
  case Nil
  then show ?thesis by simp
next
  case (Cons a cs')
  show ?thesis
  proof (cases "hasAllFlags h fs (Split g)")
    case True
    then show ?thesis by (simp add: Cons evolve_def fold_evolve_Some writes_def)
  next
    case False
    have "fold (\<lambda>a. evolve h fs g (h a)) xs None = None" for xs
      using False by (induction xs) (simp_all add: evolve_def)
    with False show ?thesis by simp
  qed
qed

text \<open>The entry of a group in the table of a kind, as a map.\<close>

lemma tableOf_empty_view:
  "view (tableOf h fs key visited []) g =
     (if carriers h key g visited = [] \<or> \<not> hasAllFlags h fs (Split g) then None
      else Some (writes h (carriers h key g visited) (initMap (Split g))))"
proof -
  have "view [] g = None" by (simp add: view_def)
  then show ?thesis unfolding tableOf_view by (simp only: fold_evolve_None)
qed

subsection \<open>Well-formed tables and the three group conditions\<close>

text \<open>A status table built by the visit has each group once.\<close>

definition wfTable :: "groupStatus \<Rightarrow> bool" where
  "wfTable T = (distinct (map fst T) \<and> (\<forall>(g, st)\<in>set T. distinct (map fst st)))"

lemma distinct_initStatus: "distinct (map fst st) \<Longrightarrow> distinct (map fst (initStatus names st))"
  by (induction names arbitrary: st) (simp_all add: AList.distinct_update)

lemma set_update_cases:
  "e \<in> set (AList.update k v al) \<Longrightarrow> e = (k, v) \<or> e \<in> set al"
  by (induction al) (auto split: if_splits)

lemma wfTable_update:
  "wfTable T \<Longrightarrow> distinct (map fst st) \<Longrightarrow> wfTable (AList.update g st T)"
  unfolding wfTable_def
  by (auto simp: AList.distinct_update dest!: set_update_cases)

lemma wfTable_processGroups: "wfTable T \<Longrightarrow> wfTable (processGroups h fs pf gs T)"
proof (induction gs arbitrary: T)
  case Nil
  then show ?case by simp
next
  case (Cons g gs)
  show ?case
  proof (cases "map_of T g")
    case None
    have "distinct (map fst (AList.update (Name pf) (Changed pf) (initStatus (Split g) [])))"
      by (simp add: AList.distinct_update distinct_initStatus)
    with Cons None show ?thesis by (simp add: Let_def wfTable_update)
  next
    case (Some st)
    then have "(g, st) \<in> set T" by (rule map_of_SomeD)
    with Cons.prems have "distinct (map fst st)" by (auto simp: wfTable_def)
    then have "distinct (map fst (AList.update (Name pf) (Changed pf) st))"
      by (rule AList.distinct_update)
    with Cons Some show ?thesis by (simp add: wfTable_update)
  qed
qed

lemma wfTable_tableOf: "wfTable T \<Longrightarrow> wfTable (tableOf h fs key visited T)"
proof (induction visited arbitrary: T)
  case Nil
  then show ?case by (simp add: tableOf_def)
next
  case (Cons a visited)
  have "wfTable (processFlagGroupAnnotation h fs (h a) key T)"
    using Cons.prems by (simp add: processFlagGroupAnnotation_def wfTable_processGroups
        split: option.splits)
  from Cons.IH[OF this] show ?case by (simp add: tableOf_def)
qed

lemma wfTable_Nil: "wfTable []" by (simp add: wfTable_def)

text \<open>What each validator asks of one group, on the list and on the map.\<close>

definition okRequire :: "status \<Rightarrow> bool" where
  "okRequire st = (length (unsetNames st) = length st \<or> length (unsetNames st) = 0)"

definition okOne :: "status \<Rightarrow> bool" where
  "okOne st = (length (setNames st) \<ge> 1)"

definition okExclusive :: "status \<Rightarrow> bool" where
  "okExclusive st = (length (setNames st) = 0 \<or> length (setNames st) = 1)"

definition okRequireMap :: "(string \<rightharpoonup> bool) \<Rightarrow> bool" where
  "okRequireMap m = ((\<forall>n. m n \<noteq> Some True) \<or> (\<forall>n. m n \<noteq> Some False))"

definition okOneMap :: "(string \<rightharpoonup> bool) \<Rightarrow> bool" where
  "okOneMap m = (\<exists>n. m n = Some True)"

definition okExclusiveMap :: "(string \<rightharpoonup> bool) \<Rightarrow> bool" where
  "okExclusiveMap m = (\<forall>n n'. m n = Some True \<and> m n' = Some True \<longrightarrow> n = n')"

lemma length_filter_all: "length (filter P xs) = length xs \<longleftrightarrow> (\<forall>x\<in>set xs. P x)"
  by (metis filter_id_conv length_filter_less less_irrefl)

lemma okRequire_map:
  assumes "distinct (map fst st)"
  shows "okRequire st \<longleftrightarrow> okRequireMap (map_of st)"
proof -
  have mem: "map_of st n = Some b \<longleftrightarrow> (n, b) \<in> set st" for n b
    using assms by simp
  have 1: "length (unsetNames st) = length st \<longleftrightarrow> (\<forall>n. map_of st n \<noteq> Some True)"
    unfolding mem by (auto simp: unsetNames_def length_filter_all)
  have 2: "length (unsetNames st) = 0 \<longleftrightarrow> (\<forall>n. map_of st n \<noteq> Some False)"
    unfolding mem by (auto simp: unsetNames_def filter_empty_conv)
  show ?thesis by (simp only: okRequire_def okRequireMap_def 1 2)
qed

lemma okOne_map:
  assumes "distinct (map fst st)"
  shows "okOne st \<longleftrightarrow> okOneMap (map_of st)"
proof -
  have mem: "map_of st n = Some b \<longleftrightarrow> (n, b) \<in> set st" for n b
    using assms by simp
  have "length (setNames st) \<ge> 1 \<longleftrightarrow> setNames st \<noteq> []"
    by (cases "setNames st") simp_all
  also have "\<dots> \<longleftrightarrow> (\<exists>n. (n, True) \<in> set st)"
    by (auto simp: setNames_def filter_empty_conv)
  finally show ?thesis by (simp add: okOne_def okOneMap_def mem)
qed

lemma distinct_setNames: "distinct (map fst st) \<Longrightarrow> distinct (setNames st)"
  by (simp add: setNames_def distinct_map_filter)

lemma set_setNames: "set (setNames st) = {n. (n, True) \<in> set st}"
  by (auto simp: setNames_def image_iff)

lemma distinct_length_le1:
  "distinct xs \<Longrightarrow> (length xs = 0 \<or> length xs = 1) \<longleftrightarrow> (\<forall>x\<in>set xs. \<forall>y\<in>set xs. x = y)"
proof (cases xs)
  case Nil
  then show ?thesis by simp
next
  case (Cons a rest)
  assume "distinct xs"
  with Cons show ?thesis by (cases rest) auto
qed

lemma okExclusive_map:
  assumes "distinct (map fst st)"
  shows "okExclusive st \<longleftrightarrow> okExclusiveMap (map_of st)"
proof -
  have mem: "map_of st n = Some b \<longleftrightarrow> (n, b) \<in> set st" for n b
    using assms by simp
  show ?thesis
    unfolding okExclusive_def okExclusiveMap_def
      distinct_length_le1[OF distinct_setNames[OF assms]] set_setNames mem
    by blast
qed

subsection \<open>When \<open>ValidateFlagGroups\<close> accepts\<close>

lemma validateRequireLoop_None:
  "validateRequireLoop data keys = None \<longleftrightarrow> (\<forall>k\<in>set keys. okRequire (statusOf data k))"
  by (induction keys) (auto simp: Let_def okRequire_def)

lemma validateOneRequiredLoop_None:
  "validateOneRequiredLoop data keys = None \<longleftrightarrow> (\<forall>k\<in>set keys. okOne (statusOf data k))"
  by (induction keys) (auto simp: Let_def okOne_def)

lemma validateExclusiveLoop_None:
  "validateExclusiveLoop data keys = None \<longleftrightarrow> (\<forall>k\<in>set keys. okExclusive (statusOf data k))"
  by (induction keys) (auto simp: Let_def okExclusive_def)

lemma set_sortedKeys: "set (sortedKeys T) = fst ` set T"
  by (simp add: sortedKeys_def)

lemma view_Some:
  assumes "wfTable T"
  shows "view T g = Some m \<longleftrightarrow>
         g \<in> fst ` set T \<and> m = map_of (statusOf T g)"
proof (cases "map_of T g")
  case None
  then have "g \<notin> fst ` set T" by (simp add: map_of_eq_None_iff)
  with None show ?thesis by (simp add: view_def)
next
  case (Some st)
  then have "g \<in> fst ` set T" by (metis domI dom_map_of_conv_image_fst)
  with Some show ?thesis by (auto simp: view_def statusOf_def)
qed

lemma wfTable_statusOf: "wfTable T \<Longrightarrow> distinct (map fst (statusOf T g))"
  by (auto simp: statusOf_def wfTable_def split: option.splits dest!: map_of_SomeD)

lemma requirePass_view:
  assumes "wfTable T"
  shows "validateRequireFlagGroups T = None \<longleftrightarrow> (\<forall>g m. view T g = Some m \<longrightarrow> okRequireMap m)"
  unfolding validateRequireFlagGroups_def validateRequireLoop_None set_sortedKeys
    view_Some[OF assms]
  using okRequire_map[OF wfTable_statusOf[OF assms]] by blast

lemma oneRequiredPass_view:
  assumes "wfTable T"
  shows "validateOneRequiredFlagGroups T = None \<longleftrightarrow> (\<forall>g m. view T g = Some m \<longrightarrow> okOneMap m)"
  unfolding validateOneRequiredFlagGroups_def validateOneRequiredLoop_None set_sortedKeys
    view_Some[OF assms]
  using okOne_map[OF wfTable_statusOf[OF assms]] by blast

lemma exclusivePass_view:
  assumes "wfTable T"
  shows "validateExclusiveFlagGroups T = None \<longleftrightarrow> (\<forall>g m. view T g = Some m \<longrightarrow> okExclusiveMap m)"
  unfolding validateExclusiveFlagGroups_def validateExclusiveLoop_None set_sortedKeys
    view_Some[OF assms]
  using okExclusive_map[OF wfTable_statusOf[OF assms]] by blast

text \<open>The map of a group under a kind after the visit.\<close>

definition groupView ::
  "flag_heap \<Rightarrow> FlagSet \<Rightarrow> string \<Rightarrow> faddr list \<Rightarrow> string \<Rightarrow> (string \<rightharpoonup> bool) option" where
  "groupView h fs key visited g =
     (if carriers h key g visited = [] \<or> \<not> hasAllFlags h fs (Split g) then None
      else Some (writes h (carriers h key g visited) (initMap (Split g))))"

lemma groupTables_alt:
  "groupTables h fs visited =
     (tableOf h fs requiredAsGroupAnnotation visited [],
      tableOf h fs oneRequiredAnnotation visited [],
      tableOf h fs mutuallyExclusiveAnnotation visited [])"
  by (simp add: groupTables_def visitGroups_tables)

lemma ValidateFlagGroups_accepts:
  "ValidateFlagGroups h cl c = None \<longleftrightarrow>
     DisableFlagParsing c \<or>
     ((\<forall>g m. groupView h (flags c) requiredAsGroupAnnotation (VisitAll h cl) g = Some m
          \<longrightarrow> okRequireMap m) \<and>
      (\<forall>g m. groupView h (flags c) oneRequiredAnnotation (VisitAll h cl) g = Some m
          \<longrightarrow> okOneMap m) \<and>
      (\<forall>g m. groupView h (flags c) mutuallyExclusiveAnnotation (VisitAll h cl) g = Some m
          \<longrightarrow> okExclusiveMap m))"
proof -
  let ?V = "VisitAll h cl"
  have wf: "wfTable (tableOf h (flags c) key ?V [])" for key
    by (rule wfTable_tableOf[OF wfTable_Nil])
  have gv: "view (tableOf h (flags c) key ?V []) g = groupView h (flags c) key ?V g" for key g
    by (simp only: tableOf_empty_view groupView_def)
  let ?R = "validateRequireFlagGroups (tableOf h (flags c) requiredAsGroupAnnotation ?V [])"
  let ?O = "validateOneRequiredFlagGroups (tableOf h (flags c) oneRequiredAnnotation ?V [])"
  let ?M = "validateExclusiveFlagGroups (tableOf h (flags c) mutuallyExclusiveAnnotation ?V [])"
  have split: "ValidateFlagGroups h cl c = None \<longleftrightarrow>
      DisableFlagParsing c \<or> (?R = None \<and> ?O = None \<and> ?M = None)"
    unfolding ValidateFlagGroups_def groupTables_alt
    by (cases ?R; cases ?O; cases ?M) simp_all
  show ?thesis
    unfolding split requirePass_view[OF wf] oneRequiredPass_view[OF wf]
      exclusivePass_view[OF wf] gv ..
qed

subsection \<open>Signatures and what a declaration writes\<close>

text \<open>
  The signature of a group is its member names joined with a space; validation splits it
  again. Two member lists over the same names split to the same set of names.
\<close>

lemma Split_nonempty: "Split s \<noteq> []"
  by (induction s) (auto split: list.splits)

lemma Split_append_space: "Split (x @ CHR '' '' # r) = Split x @ Split r"
proof (induction x)
  case Nil
  show ?case by simp
next
  case (Cons c x)
  obtain w ws where w: "Split x = w # ws" using Split_nonempty[of x] by (cases "Split x") auto
  show ?case using Cons w by simp
qed

lemma Split_Join: "xs \<noteq> [] \<Longrightarrow> Split (Join xs) = concat (map Split xs)"
proof (induction xs rule: Join.induct)
  case 1
  then show ?case by simp
next
  case (2 x)
  show ?case by simp
next
  case (3 x y ys)
  then show ?case by (simp add: Split_append_space)
qed

lemma set_Split_Join:
  assumes "set xs = set ys"
  shows "set (Split (Join xs)) = set (Split (Join ys))"
proof (cases "xs = []")
  case True
  with assms show ?thesis by simp
next
  case False
  with assms have "ys \<noteq> []" by auto
  with False assms show ?thesis by (simp add: Split_Join)
qed

text \<open>How a declaration changes the heap: the flags named get the signature added under
  the kind's key, and nothing else changes.\<close>

definition declared :: "flag_heap \<Rightarrow> flag_heap \<Rightarrow> string \<Rightarrow> faddr set \<Rightarrow> string \<Rightarrow> bool" where
  "declared h h' key M sig =
     (\<forall>a. Name (h' a) = Name (h a) \<and> Changed (h' a) = Changed (h a) \<and>
          (\<forall>key'. key' \<noteq> key \<longrightarrow> Annotations (h' a) key' = Annotations (h a) key') \<and>
          set (annotationOf (h' a) key) =
            set (annotationOf (h a) key) \<union> (if a \<in> M then {sig} else {}))"

lemma markFlagGroup_declared:
  "markFlagGroup h fs key names vs = Inr h' \<Longrightarrow>
   declared h h' key {a. \<exists>v\<in>set vs. Lookup h fs v = Some a} (Join names)"
proof (induction vs arbitrary: h)
  case Nil
  then show ?case by (simp add: declared_def)
next
  case (Cons v vs)
  from Cons.prems obtain f where f: "Lookup h fs v = Some f"
    by (cases "Lookup h fs v") simp_all
  let ?h1 = "h(f := (h f)\<lparr>Annotations :=
      (Annotations (h f))(key \<mapsto> annotationOf (h f) key @ [Join names])\<rparr>)"
  have set1: "SetAnnotation h fs v key (annotationOf (h f) key @ [Join names]) = (None, ?h1)"
    using f by (simp add: SetAnnotation_def)
  with Cons.prems f have rest: "markFlagGroup ?h1 fs key names vs = Inr h'" by simp
  have names: "\<forall>a. Name (?h1 a) = Name (h a)" by simp
  have lk: "Lookup ?h1 fs n = Lookup h fs n" for n by (rule Lookup_names[OF names])
  from Cons.IH[OF rest]
  have d: "declared ?h1 h' key {a. \<exists>v\<in>set vs. Lookup h fs v = Some a} (Join names)"
    by (simp only: lk)
  have 1: "Name (h' a) = Name (h a)" for a
    using d[unfolded declared_def, rule_format, of a] by simp
  have 2: "Changed (h' a) = Changed (h a)" for a
    using d[unfolded declared_def, rule_format, of a] by simp
  have 3: "Annotations (h' a) key' = Annotations (h a) key'" if "key' \<noteq> key" for a key'
  proof -
    from d have "Annotations (h' a) key' = Annotations (?h1 a) key'"
      using that by (simp add: declared_def)
    also have "\<dots> = Annotations (h a) key'" using that by simp
    finally show ?thesis .
  qed
  have 4: "set (annotationOf (h' a) key) =
        set (annotationOf (h a) key) \<union>
        (if a \<in> {a. \<exists>v\<in>set (v # vs). Lookup h fs v = Some a} then {Join names} else {})" for a
  proof -
    have "set (annotationOf (h' a) key) =
        set (annotationOf (?h1 a) key) \<union>
        (if a \<in> {a. \<exists>v\<in>set vs. Lookup h fs v = Some a} then {Join names} else {})"
      using d by (simp add: declared_def)
    moreover have "set (annotationOf (?h1 a) key) =
        set (annotationOf (h a) key) \<union> (if a = f then {Join names} else {})"
      by (cases "a = f"; cases "Annotations (h f) key") (auto simp: annotationOf_def)
    ultimately show ?thesis using f by auto
  qed
  show ?case
    unfolding declared_def using 1 2 3 4 by blast
qed

subsection \<open>Declaration order\<close>

text \<open>
  A signature no flag carries yet under the annotation kind, and the status maps of all
  groups of a kind after the visit.
\<close>

definition undeclared :: "flag_heap \<Rightarrow> string \<Rightarrow> string \<Rightarrow> bool" where
  "undeclared h key sig = (\<forall>a. sig \<notin> set (annotationOf (h a) key))"

definition viewRange :: "flag_heap \<Rightarrow> FlagSet \<Rightarrow> string \<Rightarrow> faddr list \<Rightarrow> (string \<rightharpoonup> bool) set" where
  "viewRange h fs key visited = {m. \<exists>g. groupView h fs key visited g = Some m}"

lemma declared_names: "declared h h' key M sig \<Longrightarrow> \<forall>a. Name (h' a) = Name (h a)"
  by (simp add: declared_def)

lemma declared_hasAllFlags:
  "declared h h' key M sig \<Longrightarrow> hasAllFlags h' fs names = hasAllFlags h fs names"
  by (simp add: hasAllFlags_iff Lookup_names[OF declared_names])

lemma declared_VisitAll: "declared h h' key M sig \<Longrightarrow> VisitAll h' cl = VisitAll h cl"
proof -
  assume "declared h h' key M sig"
  then have "(\<lambda>a. Name (h' a)) = (\<lambda>a. Name (h a))" by (simp add: declared_def)
  then show ?thesis by (simp add: VisitAll_def)
qed

lemma declared_writes: "declared h h' key M sig \<Longrightarrow> writes h' cs m = writes h cs m"
  by (simp add: writes_def declared_def)

lemma declared_annotationOf_other:
  "declared h h' key M sig \<Longrightarrow> key' \<noteq> key \<Longrightarrow> annotationOf (h' a) key' = annotationOf (h a) key'"
  by (simp add: declared_def annotationOf_def)

lemma declared_groupView_other:
  assumes d: "declared h h' key M sig" and k: "key' \<noteq> key"
  shows "groupView h' fs key' visited g = groupView h fs key' visited g"
proof -
  have "carriers h' key' g visited = carriers h key' g visited"
    by (simp add: carriers_def declared_annotationOf_other[OF d k])
  then show ?thesis
    by (simp add: groupView_def declared_hasAllFlags[OF d] declared_writes[OF d])
qed

lemma declared_groupView_same:
  assumes d: "declared h h' key M sig" and g: "g \<noteq> sig"
  shows "groupView h' fs key visited g = groupView h fs key visited g"
proof -
  have "g \<in> set (annotationOf (h' a) key) \<longleftrightarrow> g \<in> set (annotationOf (h a) key)" for a
    using d g by (auto simp: declared_def)
  then have "carriers h' key g visited = carriers h key g visited"
    by (simp add: carriers_def)
  then show ?thesis
    by (simp add: groupView_def declared_hasAllFlags[OF d] declared_writes[OF d])
qed

lemma declared_groupView_sig:
  assumes d: "declared h h' key M sig" and u: "undeclared h key sig"
  shows "groupView h' fs key visited sig =
     (if filter (\<lambda>a. a \<in> M) visited = [] \<or> \<not> hasAllFlags h fs (Split sig) then None
      else Some (writes h (filter (\<lambda>a. a \<in> M) visited) (initMap (Split sig))))"
proof -
  have "sig \<in> set (annotationOf (h' a) key) \<longleftrightarrow> a \<in> M" for a
    using d u by (auto simp: declared_def undeclared_def)
  then have "carriers h' key sig visited = filter (\<lambda>a. a \<in> M) visited"
    by (simp add: carriers_def)
  then show ?thesis
    by (simp add: groupView_def declared_hasAllFlags[OF d] declared_writes[OF d])
qed

lemma undeclared_groupView: "undeclared h key sig \<Longrightarrow> groupView h fs key visited sig = None"
  by (simp add: groupView_def carriers_def undeclared_def)

lemma viewRange_sub:
  assumes d1: "declared h h1 key M s1" and d2: "declared h h2 key M s2"
    and u1: "undeclared h key s1" and u2: "undeclared h key s2"
    and sp: "set (Split s1) = set (Split s2)"
  shows "viewRange h1 fs key' visited \<subseteq> viewRange h2 fs key' visited"
proof (cases "key' = key")
  case False
  then show ?thesis
    by (simp add: viewRange_def declared_groupView_other[OF d1] declared_groupView_other[OF d2])
next
  case True
  have init: "initMap (Split s1) = initMap (Split s2)" by (simp add: initMap_def sp)
  have has: "hasAllFlags h fs (Split s1) = hasAllFlags h fs (Split s2)"
    by (simp add: hasAllFlags_iff sp)
  have sig: "groupView h1 fs key visited s1 = groupView h2 fs key visited s2"
    by (simp only: declared_groupView_sig[OF d1 u1] declared_groupView_sig[OF d2 u2] init has)
  show ?thesis
  proof
    fix m assume "m \<in> viewRange h1 fs key' visited"
    then obtain g where g: "groupView h1 fs key visited g = Some m"
      by (auto simp: viewRange_def True)
    show "m \<in> viewRange h2 fs key' visited"
    proof (cases "g = s1")
      case True
      with g sig have "groupView h2 fs key visited s2 = Some m" by simp
      then show ?thesis by (auto simp: viewRange_def \<open>key' = key\<close>)
    next
      case False
      with g have base: "groupView h fs key visited g = Some m"
        by (simp add: declared_groupView_same[OF d1])
      with undeclared_groupView[OF u2, of fs visited] have "g \<noteq> s2" by auto
      with base have "groupView h2 fs key visited g = Some m"
        by (simp add: declared_groupView_same[OF d2])
      then show ?thesis by (auto simp: viewRange_def \<open>key' = key\<close>)
    qed
  qed
qed

lemma viewRange_eq:
  assumes "declared h h1 key M s1" "declared h h2 key M s2"
    and "undeclared h key s1" "undeclared h key s2"
    and "set (Split s1) = set (Split s2)"
  shows "viewRange h1 fs key' visited = viewRange h2 fs key' visited"
  using viewRange_sub[OF assms(1,2,3,4,5)] viewRange_sub[OF assms(2,1,4,3) assms(5)[symmetric]]
  by blast

lemma accepts_viewRange:
  "ValidateFlagGroups h cl c = None \<longleftrightarrow>
     DisableFlagParsing c \<or>
     ((\<forall>m\<in>viewRange h (flags c) requiredAsGroupAnnotation (VisitAll h cl). okRequireMap m) \<and>
      (\<forall>m\<in>viewRange h (flags c) oneRequiredAnnotation (VisitAll h cl). okOneMap m) \<and>
      (\<forall>m\<in>viewRange h (flags c) mutuallyExclusiveAnnotation (VisitAll h cl). okExclusiveMap m))"
  unfolding ValidateFlagGroups_accepts viewRange_def by blast

lemma markFlagGroup_order:
  assumes same: "set xs = set ys"
    and u: "undeclared h key (Join xs)" "undeclared h key (Join ys)"
    and m1: "markFlagGroup h (flags c) key xs xs = Inr h1"
    and m2: "markFlagGroup h (flags c) key ys ys = Inr h2"
  shows "ValidateFlagGroups h1 cl c = None \<longleftrightarrow> ValidateFlagGroups h2 cl c = None"
proof -
  let ?M = "{a. \<exists>v\<in>set xs. Lookup h (flags c) v = Some a}"
  have d1: "declared h h1 key ?M (Join xs)" by (rule markFlagGroup_declared[OF m1])
  have d2: "declared h h2 key ?M (Join ys)"
    using markFlagGroup_declared[OF m2] by (simp only: same)
  have v: "VisitAll h1 cl = VisitAll h2 cl"
    by (simp only: declared_VisitAll[OF d1] declared_VisitAll[OF d2])
  have r: "viewRange h1 (flags c) key' V = viewRange h2 (flags c) key' V" for key' V
    by (rule viewRange_eq[OF d1 d2 u set_Split_Join[OF same]])
  show ?thesis
    unfolding accepts_viewRange v r ..
qed

text \<open>
  Flags \<open>a\<close> (changed) and \<open>b\<close> of \<open>abcCmd\<close> declared required together as \<open>[a, b]\<close>
  and as \<open>[b, a]\<close>.
\<close>

definition abHeap :: flag_heap where
  "abHeap = abcBase
     (0 := (abcBase 0)\<lparr>Annotations := [requiredAsGroupAnnotation \<mapsto> [''a b'']]\<rparr>,
      1 := (abcBase 1)\<lparr>Annotations := [requiredAsGroupAnnotation \<mapsto> [''a b'']]\<rparr>)"

definition baHeap :: flag_heap where
  "baHeap = abcBase
     (1 := (abcBase 1)\<lparr>Annotations := [requiredAsGroupAnnotation \<mapsto> [''b a'']]\<rparr>,
      0 := (abcBase 0)\<lparr>Annotations := [requiredAsGroupAnnotation \<mapsto> [''b a'']]\<rparr>)"

text \<open>
  Claim C8. Two declarations of one kind over the same member names, in any order, made
  on the same heap through \<open>MarkFlagsRequiredTogether\<close>, \<open>MarkFlagsOneRequired\<close> or
  \<open>MarkFlagsMutuallyExclusive\<close>, neither signature being on a flag before: whatever the
  changed states in the heap (a declaration leaves them as they are) and whatever set is
  visited, \<open>ValidateFlagGroups\<close> accepts after the one exactly when it accepts after the
  other, although the signatures stored differ.
\<close>

theorem group_declaration_order_irrelevant:
  assumes "set xs = set ys"
    and "(mark = MarkFlagsRequiredTogether \<and> key = requiredAsGroupAnnotation) \<or>
         (mark = MarkFlagsOneRequired \<and> key = oneRequiredAnnotation) \<or>
         (mark = MarkFlagsMutuallyExclusive \<and> key = mutuallyExclusiveAnnotation)"
    and "undeclared h key (Join xs)" and "undeclared h key (Join ys)"
    and "mark h c xs = Inr h1" and "mark h c ys = Inr h2"
  shows "ValidateFlagGroups h1 CommandLine c = None \<longleftrightarrow>
         ValidateFlagGroups h2 CommandLine c = None"
proof -
  from assms(2,5) have m1: "markFlagGroup h (flags c) key xs xs = Inr h1"
    by (auto simp: MarkFlagsRequiredTogether_def MarkFlagsOneRequired_def
        MarkFlagsMutuallyExclusive_def)
  from assms(2,6) have m2: "markFlagGroup h (flags c) key ys ys = Inr h2"
    by (auto simp: MarkFlagsRequiredTogether_def MarkFlagsOneRequired_def
        MarkFlagsMutuallyExclusive_def)
  show ?thesis by (rule markFlagGroup_order[OF assms(1,3,4) m1 m2])
qed

lemma ab_undeclared:
  "undeclared abcBase requiredAsGroupAnnotation sig"
  by (simp add: undeclared_def annotationOf_def group_example_defs)

lemma ab_declared:
  "MarkFlagsRequiredTogether abcBase abcCmd [''a'', ''b''] = Inr abHeap"
  by (simp add: MarkFlagsRequiredTogether_def SetAnnotation_def Lookup_def annotationOf_def
      requiredAsGroupAnnotation_def abHeap_def group_example_defs fun_eq_iff)

lemma ba_declared:
  "MarkFlagsRequiredTogether abcBase abcCmd [''b'', ''a''] = Inr baHeap"
  by (simp add: MarkFlagsRequiredTogether_def SetAnnotation_def Lookup_def annotationOf_def
      requiredAsGroupAnnotation_def baHeap_def group_example_defs fun_eq_iff)

lemma ab_rejected:
  "ValidateFlagGroups abHeap (flags abcCmd) abcCmd = Some (RequiredTogetherError ''a b'' [''b''])"
  by (simp add: group_eval abHeap_def group_example_defs)

lemma ba_rejected:
  "ValidateFlagGroups baHeap (flags abcCmd) abcCmd = Some (RequiredTogetherError ''b a'' [''b''])"
  by (simp add: group_eval baHeap_def group_example_defs)

theorem group_declaration_order_irrelevant_witness:
  "set [''a'', ''b''] = set [''b'', ''a''] \<and>
   undeclared abcBase requiredAsGroupAnnotation (Join [''a'', ''b'']) \<and>
   undeclared abcBase requiredAsGroupAnnotation (Join [''b'', ''a'']) \<and>
   MarkFlagsRequiredTogether abcBase abcCmd [''a'', ''b''] = Inr abHeap \<and>
   MarkFlagsRequiredTogether abcBase abcCmd [''b'', ''a''] = Inr baHeap \<and>
   annotationOf (abHeap 0) requiredAsGroupAnnotation = [''a b''] \<and>
   annotationOf (baHeap 0) requiredAsGroupAnnotation = [''b a''] \<and>
   ValidateFlagGroups abHeap (flags abcCmd) abcCmd
     = Some (RequiredTogetherError ''a b'' [''b'']) \<and>
   ValidateFlagGroups baHeap (flags abcCmd) abcCmd \<noteq> None"
proof -
  have s: "set [''a'', ''b''] = set [''b'', ''a'']" by auto
  have "ValidateFlagGroups baHeap (flags abcCmd) abcCmd \<noteq> None"
    using group_declaration_order_irrelevant[of "[''a'', ''b'']" "[''b'', ''a'']"
        MarkFlagsRequiredTogether requiredAsGroupAnnotation abcBase abcCmd abHeap baHeap
        "flags abcCmd"]
      s ab_undeclared ab_declared ba_declared ab_rejected
    by simp
  with s ab_undeclared ab_declared ba_declared ab_rejected show ?thesis
    by (simp add: annotationOf_def abHeap_def baHeap_def)
qed

section \<open>The completion pass, read off the flags\<close>

text \<open>What each loop of the pass marks, exactly.\<close>

lemma MarkFlagRequired_exact:
  "isRequired (snd (MarkFlagRequired h fs n)) a \<longleftrightarrow> isRequired h a \<or> Lookup h fs n = Some a"
  by (auto simp: MarkFlagRequired_def SetAnnotation_def isRequired_def split: option.splits)

lemma markAllRequired_exact:
  "isRequired (markAllRequired h fs names) a \<longleftrightarrow>
     isRequired h a \<or> (\<exists>n\<in>set names. Lookup h fs n = Some a)"
proof (induction names arbitrary: h)
  case Nil
  show ?case by simp
next
  case (Cons x names)
  let ?h1 = "snd (MarkFlagRequired h fs x)"
  have lk: "\<And>n. Lookup ?h1 fs n = Lookup h fs n"
    using MarkFlagRequired_frame by (rule Lookup_markFrame)
  show ?case by (auto simp: Cons.IH lk MarkFlagRequired_exact)
qed

lemma requiredStatusLoop_exact:
  "isRequired (requiredStatusLoop h fs g st) a \<longleftrightarrow>
     isRequired h a \<or>
     ((\<exists>m. (m, True) \<in> set st) \<and> (\<exists>n\<in>set (Split g). Lookup h fs n = Some a))"
proof (induction st arbitrary: h)
  case Nil
  show ?case by simp
next
  case (Cons e st)
  obtain m b where e: "e = (m, b)" by (cases e)
  let ?h1 = "markAllRequired h fs (Split g)"
  have lk: "\<And>n. Lookup ?h1 fs n = Lookup h fs n"
    using markAllRequired_frame by (rule Lookup_markFrame)
  show ?case
  proof (cases b)
    case True
    then show ?thesis by (auto simp: e Cons.IH lk markAllRequired_exact)
  next
    case False
    then show ?thesis by (simp add: e Cons.IH)
  qed
qed

lemma ex_entry_Cons:
  "(\<exists>g st. (g, st) \<in> set ((g0, st0) # T) \<and> P g st) \<longleftrightarrow>
     P g0 st0 \<or> (\<exists>g st. (g, st) \<in> set T \<and> P g st)"
  by auto

lemma requiredGroupsLoop_exact:
  "isRequired (requiredGroupsLoop h fs T) a \<longleftrightarrow>
     isRequired h a \<or>
     (\<exists>g st. (g, st) \<in> set T \<and> (\<exists>m. (m, True) \<in> set st) \<and>
        (\<exists>n\<in>set (Split g). Lookup h fs n = Some a))"
proof (induction T arbitrary: h)
  case Nil
  show ?case by simp
next
  case (Cons e T)
  obtain g st where e: "e = (g, st)" by (cases e)
  let ?h1 = "requiredStatusLoop h fs g st"
  have lk: "\<And>n. Lookup ?h1 fs n = Lookup h fs n"
    using requiredStatusLoop_frame by (rule Lookup_markFrame)
  have "isRequired (requiredGroupsLoop h fs (e # T)) a \<longleftrightarrow>
      (isRequired h a \<or>
       ((\<exists>m. (m, True) \<in> set st) \<and> (\<exists>n\<in>set (Split g). Lookup h fs n = Some a))) \<or>
      (\<exists>g st. (g, st) \<in> set T \<and> (\<exists>m. (m, True) \<in> set st) \<and>
         (\<exists>n\<in>set (Split g). Lookup h fs n = Some a))"
    unfolding e requiredGroupsLoop.simps Cons.IH lk requiredStatusLoop_exact ..
  then show ?case unfolding e ex_entry_Cons by blast
qed

lemma oneRequiredGroupsLoop_exact:
  "isRequired (oneRequiredGroupsLoop h fs T) a \<longleftrightarrow>
     isRequired h a \<or>
     (\<exists>g st. (g, st) \<in> set T \<and> \<not> (\<exists>m. (m, True) \<in> set st) \<and>
        (\<exists>n\<in>set (Split g). Lookup h fs n = Some a))"
proof (induction T arbitrary: h)
  case Nil
  show ?case by simp
next
  case (Cons e T)
  obtain g st where e: "e = (g, st)" by (cases e)
  let ?h1 = "markAllRequired h fs (Split g)"
  have lk: "\<And>n. Lookup ?h1 fs n = Lookup h fs n"
    using markAllRequired_frame by (rule Lookup_markFrame)
  have any: "anySetLoop False st \<longleftrightarrow> (\<exists>m. (m, True) \<in> set st)"
    by (simp add: anySetLoop_iff)
  show ?case
  proof (cases "\<exists>m. (m, True) \<in> set st")
    case True
    then have step: "oneRequiredGroupsLoop h fs ((g, st) # T) = oneRequiredGroupsLoop h fs T"
      by (simp add: Let_def any)
    show ?thesis
      unfolding e step Cons.IH ex_entry_Cons using True by blast
  next
    case False
    then have step: "oneRequiredGroupsLoop h fs ((g, st) # T) = oneRequiredGroupsLoop ?h1 fs T"
      by (simp add: Let_def any)
    show ?thesis
      unfolding e step Cons.IH lk markAllRequired_exact ex_entry_Cons using False by blast
  qed
qed

lemma writes_True:
  "distinct (map (\<lambda>a. Name (h a)) cs) \<Longrightarrow>
   writes h cs m0 n = Some True \<longleftrightarrow>
     (\<exists>a\<in>set cs. Name (h a) = n \<and> Changed (h a)) \<or>
     (m0 n = Some True \<and> n \<notin> (\<lambda>a. Name (h a)) ` set cs)"
proof (induction cs arbitrary: m0)
  case Nil
  show ?case by (simp add: writes_def)
next
  case (Cons a cs)
  have step: "writes h (a # cs) m0 = writes h cs (m0(Name (h a) \<mapsto> Changed (h a)))"
    by (simp add: writes_def)
  from Cons.prems have d: "distinct (map (\<lambda>a. Name (h a)) cs)"
    and na: "Name (h a) \<notin> (\<lambda>a. Name (h a)) ` set cs" by simp_all
  show ?case
    unfolding step Cons.IH[OF d] using na by auto
qed

lemma distinct_map_insort_key:
  "distinct (map f (insort_key f x ys)) \<longleftrightarrow> f x \<notin> f ` set ys \<and> distinct (map f ys)"
  by (induction ys) (auto simp: set_insort_key)

lemma distinct_map_sort_key: "distinct (map f (sort_key f xs)) \<longleftrightarrow> distinct (map f xs)"
  by (induction xs) (simp_all add: distinct_map_insort_key)

lemma VisitAll_set: "set (VisitAll h fs) = set (formal fs)"
  by (simp add: VisitAll_def)

lemma VisitAll_distinct:
  "distinct (map (\<lambda>a. Name (h a)) (VisitAll h fs)) \<longleftrightarrow> distinct (map (\<lambda>a. Name (h a)) (formal fs))"
  by (simp add: VisitAll_def distinct_map_sort_key)

text \<open>
  The groups of a flag set, in terms of its flags alone. A flag of the set carries a
  group when the group's signature is among its annotations of the kind; a signature is
  a group of the set when a flag of the set carries it and each of its names is a flag
  of the set; the group has a set member when a flag that carries it was changed; and a
  flag is a member of a group when one of the group's names looks it up.
\<close>

definition carries :: "flag_heap \<Rightarrow> FlagSet \<Rightarrow> string \<Rightarrow> string \<Rightarrow> faddr \<Rightarrow> bool" where
  "carries h fs key g a = (a \<in> set (formal fs) \<and> g \<in> set (annotationOf (h a) key))"

definition isGroup :: "flag_heap \<Rightarrow> FlagSet \<Rightarrow> string \<Rightarrow> string \<Rightarrow> bool" where
  "isGroup h fs key g =
     ((\<exists>a. carries h fs key g a) \<and> (\<forall>n\<in>set (Split g). Lookup h fs n \<noteq> None))"

definition hasSetMember :: "flag_heap \<Rightarrow> FlagSet \<Rightarrow> string \<Rightarrow> string \<Rightarrow> bool" where
  "hasSetMember h fs key g = (\<exists>s. carries h fs key g s \<and> Changed (h s))"

definition memberOf :: "flag_heap \<Rightarrow> FlagSet \<Rightarrow> string \<Rightarrow> faddr \<Rightarrow> bool" where
  "memberOf h fs g a = (\<exists>n\<in>set (Split g). Lookup h fs n = Some a)"

lemma initMap_not_True: "initMap names n \<noteq> Some True"
  by (simp add: initMap_def)

lemma table_entry_exists:
  "(\<exists>st. (g, st) \<in> set (tableOf h fs key V [])) \<longleftrightarrow>
     carriers h key g V \<noteq> [] \<and> hasAllFlags h fs (Split g)"
proof -
  let ?T = "tableOf h fs key V []"
  have "(\<exists>st. (g, st) \<in> set ?T) \<longleftrightarrow> g \<in> fst ` set ?T" by force
  also have "\<dots> \<longleftrightarrow> map_of ?T g \<noteq> None" by (simp add: map_of_eq_None_iff)
  also have "\<dots> \<longleftrightarrow> view ?T g \<noteq> None" by (simp add: view_def)
  also have "\<dots> \<longleftrightarrow> carriers h key g V \<noteq> [] \<and> hasAllFlags h fs (Split g)"
    by (simp add: tableOf_empty_view)
  finally show ?thesis .
qed

lemma table_entry_set:
  assumes d: "distinct (map (\<lambda>a. Name (h a)) V)"
    and e: "(g, st) \<in> set (tableOf h fs key V [])"
  shows "(m, True) \<in> set st \<longleftrightarrow>
     (\<exists>s\<in>set (carriers h key g V). Name (h s) = m \<and> Changed (h s))"
proof -
  let ?T = "tableOf h fs key V []"
  let ?cs = "carriers h key g V"
  have wf: "wfTable ?T" by (rule wfTable_tableOf[OF wfTable_Nil])
  then have dT: "distinct (map fst ?T)" and dst: "distinct (map fst st)"
    using e by (auto simp: wfTable_def)
  from dT e have mo: "map_of ?T g = Some st" by simp
  then have "view ?T g = Some (map_of st)" by (simp add: view_def)
  then have w: "map_of st = writes h ?cs (initMap (Split g))"
    by (simp add: tableOf_empty_view split: if_splits)
  have dc: "distinct (map (\<lambda>a. Name (h a)) ?cs)"
    unfolding carriers_def using d by (rule distinct_map_filter)
  have "(m, True) \<in> set st \<longleftrightarrow> map_of st m = Some True" using dst by simp
  also have "\<dots> \<longleftrightarrow> (\<exists>s\<in>set ?cs. Name (h s) = m \<and> Changed (h s))"
    unfolding w writes_True[OF dc] by (simp add: initMap_not_True)
  finally show ?thesis .
qed

lemma carriers_VisitAll:
  "s \<in> set (carriers h key g (VisitAll h fs)) \<longleftrightarrow> carries h fs key g s"
  by (auto simp: carriers_def carries_def VisitAll_set)

lemma table_group:
  "(\<exists>st. (g, st) \<in> set (tableOf h fs key (VisitAll h fs) [])) \<longleftrightarrow> isGroup h fs key g"
proof -
  have "carriers h key g (VisitAll h fs) \<noteq> [] \<longleftrightarrow> (\<exists>a. carries h fs key g a)"
    using carriers_VisitAll[of _ h key g fs] by (metis all_not_in_conv set_empty)
  then show ?thesis
    unfolding table_entry_exists isGroup_def hasAllFlags_iff by simp
qed

lemma table_set:
  assumes d: "distinct (map (\<lambda>a. Name (h a)) (formal fs))"
    and e: "(g, st) \<in> set (tableOf h fs key (VisitAll h fs) [])"
  shows "(m, True) \<in> set st \<longleftrightarrow> (\<exists>s. carries h fs key g s \<and> Name (h s) = m \<and> Changed (h s))"
  unfolding table_entry_set[OF d[folded VisitAll_distinct] e] carriers_VisitAll[symmetric]
  by blast

lemma table_any_set:
  assumes d: "distinct (map (\<lambda>a. Name (h a)) (formal fs))"
    and e: "(g, st) \<in> set (tableOf h fs key (VisitAll h fs) [])"
  shows "(\<exists>m. (m, True) \<in> set st) \<longleftrightarrow> hasSetMember h fs key g"
  unfolding table_set[OF d e] hasSetMember_def by blast

lemma completionTables_alt:
  "completionTables h c =
     (tableOf h (flags c) requiredAsGroupAnnotation (VisitAll h (flags c)) [],
      tableOf h (flags c) oneRequiredAnnotation (VisitAll h (flags c)) [],
      tableOf h (flags c) mutuallyExclusiveAnnotation (VisitAll h (flags c)) [])"
  by (simp add: completionTables_def groupTables_alt)

lemma entries_with_set_member:
  assumes d: "distinct (map (\<lambda>a. Name (h a)) (formal fs))"
  shows "(\<exists>g st. (g, st) \<in> set (tableOf h fs key (VisitAll h fs) []) \<and>
            (\<exists>m. (m, True) \<in> set st) \<and> X g) \<longleftrightarrow>
         (\<exists>g. isGroup h fs key g \<and> hasSetMember h fs key g \<and> X g)"
proof
  assume "\<exists>g st. (g, st) \<in> set (tableOf h fs key (VisitAll h fs) []) \<and>
            (\<exists>m. (m, True) \<in> set st) \<and> X g"
  then obtain g st where e: "(g, st) \<in> set (tableOf h fs key (VisitAll h fs) [])"
    and s: "\<exists>m. (m, True) \<in> set st" and x: "X g" by blast
  from e have "isGroup h fs key g" unfolding table_group[symmetric] by blast
  moreover from s have "hasSetMember h fs key g" unfolding table_any_set[OF d e] .
  ultimately show "\<exists>g. isGroup h fs key g \<and> hasSetMember h fs key g \<and> X g" using x by blast
next
  assume "\<exists>g. isGroup h fs key g \<and> hasSetMember h fs key g \<and> X g"
  then obtain g where g: "isGroup h fs key g" and s: "hasSetMember h fs key g" and x: "X g"
    by blast
  from g obtain st where e: "(g, st) \<in> set (tableOf h fs key (VisitAll h fs) [])"
    unfolding table_group[symmetric] by blast
  from s have "\<exists>m. (m, True) \<in> set st" unfolding table_any_set[OF d e] .
  with e x show "\<exists>g st. (g, st) \<in> set (tableOf h fs key (VisitAll h fs) []) \<and>
            (\<exists>m. (m, True) \<in> set st) \<and> X g" by blast
qed

lemma entries_without_set_member:
  assumes d: "distinct (map (\<lambda>a. Name (h a)) (formal fs))"
  shows "(\<exists>g st. (g, st) \<in> set (tableOf h fs key (VisitAll h fs) []) \<and>
            \<not> (\<exists>m. (m, True) \<in> set st) \<and> X g) \<longleftrightarrow>
         (\<exists>g. isGroup h fs key g \<and> \<not> hasSetMember h fs key g \<and> X g)"
proof
  assume "\<exists>g st. (g, st) \<in> set (tableOf h fs key (VisitAll h fs) []) \<and>
            \<not> (\<exists>m. (m, True) \<in> set st) \<and> X g"
  then obtain g st where e: "(g, st) \<in> set (tableOf h fs key (VisitAll h fs) [])"
    and s: "\<not> (\<exists>m. (m, True) \<in> set st)" and x: "X g" by blast
  from e have "isGroup h fs key g" unfolding table_group[symmetric] by blast
  moreover from s have "\<not> hasSetMember h fs key g" unfolding table_any_set[OF d e] .
  ultimately show "\<exists>g. isGroup h fs key g \<and> \<not> hasSetMember h fs key g \<and> X g" using x by blast
next
  assume "\<exists>g. isGroup h fs key g \<and> \<not> hasSetMember h fs key g \<and> X g"
  then obtain g where g: "isGroup h fs key g" and s: "\<not> hasSetMember h fs key g" and x: "X g"
    by blast
  from g obtain st where e: "(g, st) \<in> set (tableOf h fs key (VisitAll h fs) [])"
    unfolding table_group[symmetric] by blast
  from s have "\<not> (\<exists>m. (m, True) \<in> set st)" unfolding table_any_set[OF d e] .
  with e x show "\<exists>g st. (g, st) \<in> set (tableOf h fs key (VisitAll h fs) []) \<and>
            \<not> (\<exists>m. (m, True) \<in> set st) \<and> X g" by blast
qed

lemma entries_hiding:
  assumes d: "distinct (map (\<lambda>a. Name (h a)) (formal fs))"
  shows "(\<exists>g st m n. (g, st) \<in> set (tableOf h fs key (VisitAll h fs) []) \<and>
            (m, True) \<in> set st \<and> n \<in> set (Split g) \<and> n \<noteq> m \<and> Lookup h fs n = Some a) \<longleftrightarrow>
         (\<exists>g s. isGroup h fs key g \<and> carries h fs key g s \<and> Changed (h s) \<and>
            (\<exists>n\<in>set (Split g). n \<noteq> Name (h s) \<and> Lookup h fs n = Some a))"
proof
  assume "\<exists>g st m n. (g, st) \<in> set (tableOf h fs key (VisitAll h fs) []) \<and>
            (m, True) \<in> set st \<and> n \<in> set (Split g) \<and> n \<noteq> m \<and> Lookup h fs n = Some a"
  then obtain g st m n where e: "(g, st) \<in> set (tableOf h fs key (VisitAll h fs) [])"
    and s: "(m, True) \<in> set st" and n: "n \<in> set (Split g)" "n \<noteq> m" "Lookup h fs n = Some a"
    by blast
  from e have "isGroup h fs key g" unfolding table_group[symmetric] by blast
  moreover from s obtain s' where "carries h fs key g s'" "Name (h s') = m" "Changed (h s')"
    unfolding table_set[OF d e] by blast
  ultimately show "\<exists>g s. isGroup h fs key g \<and> carries h fs key g s \<and> Changed (h s) \<and>
            (\<exists>n\<in>set (Split g). n \<noteq> Name (h s) \<and> Lookup h fs n = Some a)"
    using n by blast
next
  assume "\<exists>g s. isGroup h fs key g \<and> carries h fs key g s \<and> Changed (h s) \<and>
            (\<exists>n\<in>set (Split g). n \<noteq> Name (h s) \<and> Lookup h fs n = Some a)"
  then obtain g s n where g: "isGroup h fs key g" and s: "carries h fs key g s" "Changed (h s)"
    and n: "n \<in> set (Split g)" "n \<noteq> Name (h s)" "Lookup h fs n = Some a"
    by blast
  from g obtain st where e: "(g, st) \<in> set (tableOf h fs key (VisitAll h fs) [])"
    unfolding table_group[symmetric] by blast
  from s have "(Name (h s), True) \<in> set st" unfolding table_set[OF d e] by blast
  with e n show "\<exists>g st m n. (g, st) \<in> set (tableOf h fs key (VisitAll h fs) []) \<and>
            (m, True) \<in> set st \<and> n \<in> set (Split g) \<and> n \<noteq> m \<and> Lookup h fs n = Some a"
    by blast
qed

text \<open>
  Claim C3, amended. \<open>enforceFlagGroupsForCompletion\<close> always returns a heap, never a
  panic, and the heap it was given when flag parsing is disabled. Otherwise, the names
  of the flags of the command being distinct: a flag is marked required afterwards
  exactly when it was before, or it is a member of a required-together group that has
  a set member, or it is a member of a one-required group that has no set member; a
  flag is hidden afterwards exactly when it was before or it is a member, under
  another name than a set member's, of a mutually exclusive group with that set
  member; and no name or changed state is touched. So a one-required group with a set
  member marks nothing, and with one member of an exclusive group set the others are
  hidden and the set one is not hidden on account of the group.
\<close>

theorem completion_pass_marks_and_hides:
  "(\<exists>h'. enforceFlagGroupsForCompletion h c = Inr h') \<and>
   (DisableFlagParsing c \<longrightarrow> enforceFlagGroupsForCompletion h c = Inr h) \<and>
   (\<forall>h'. enforceFlagGroupsForCompletion h c = Inr h' \<and> \<not> DisableFlagParsing c \<and>
         distinct (map (\<lambda>a. Name (h a)) (formal (flags c))) \<longrightarrow>
      (\<forall>a. isRequired h' a \<longleftrightarrow>
         isRequired h a \<or>
         (\<exists>g. isGroup h (flags c) requiredAsGroupAnnotation g \<and>
              hasSetMember h (flags c) requiredAsGroupAnnotation g \<and>
              memberOf h (flags c) g a) \<or>
         (\<exists>g. isGroup h (flags c) oneRequiredAnnotation g \<and>
              \<not> hasSetMember h (flags c) oneRequiredAnnotation g \<and>
              memberOf h (flags c) g a)) \<and>
      (\<forall>a. Hidden (h' a) \<longleftrightarrow>
         Hidden (h a) \<or>
         (\<exists>g s. isGroup h (flags c) mutuallyExclusiveAnnotation g \<and>
              carries h (flags c) mutuallyExclusiveAnnotation g s \<and> Changed (h s) \<and>
              (\<exists>n\<in>set (Split g). n \<noteq> Name (h s) \<and> Lookup h (flags c) n = Some a))) \<and>
      (\<forall>a. Name (h' a) = Name (h a) \<and> Changed (h' a) = Changed (h a)))"
proof (cases "DisableFlagParsing c")
  case True
  then show ?thesis by (simp add: enforceFlagGroupsForCompletion_def)
next
  case False
  let ?fs = "flags c"
  let ?V = "VisitAll h ?fs"
  let ?G = "tableOf h ?fs requiredAsGroupAnnotation ?V []"
  let ?O = "tableOf h ?fs oneRequiredAnnotation ?V []"
  let ?M = "tableOf h ?fs mutuallyExclusiveAnnotation ?V []"
  let ?h1 = "requiredGroupsLoop h ?fs ?G"
  let ?h2 = "oneRequiredGroupsLoop ?h1 ?fs ?O"
  have fr1: "markFrame h ?h1" by (rule requiredGroupsLoop_frame)
  have fr2: "markFrame ?h1 ?h2" by (rule oneRequiredGroupsLoop_frame)
  have fr12: "markFrame h ?h2" using fr1 fr2 by (rule markFrame_trans)
  have lk1: "\<And>n. Lookup ?h1 ?fs n = Lookup h ?fs n" using fr1 by (rule Lookup_markFrame)
  have lk2: "\<And>n. Lookup ?h2 ?fs n = Lookup h ?fs n" using fr12 by (rule Lookup_markFrame)
  have present: "Lookup h ?fs n \<noteq> None" if "(g, st) \<in> set ?M" "n \<in> set (Split g)" for g st n
  proof -
    from that(1) have "isGroup h ?fs mutuallyExclusiveAnnotation g"
      unfolding table_group[symmetric] by blast
    with that(2) show ?thesis by (simp add: isGroup_def)
  qed
  have "\<forall>(g, st)\<in>set ?M. \<forall>n\<in>set (Split g). Lookup ?h2 ?fs n \<noteq> None"
    using present by (auto simp: lk2)
  from exclusiveGroupsLoop_result[OF this] obtain h' where
    r: "exclusiveGroupsLoop ?h2 ?fs ?M = Inr h'" and fr3: "hideFrame ?h2 h'" and
    hid: "\<forall>a. Hidden (h' a) \<longleftrightarrow>
            Hidden (?h2 a) \<or>
            (\<exists>g st m n. (g, st) \<in> set ?M \<and> (m, True) \<in> set st \<and> n \<in> set (Split g) \<and>
                       n \<noteq> m \<and> Lookup ?h2 ?fs n = Some a)"
    by blast
  have res: "enforceFlagGroupsForCompletion h c = Inr h'"
    using False r by (simp add: enforce_alt completionTables_alt)
  have chars:
    "(\<forall>a. isRequired h' a \<longleftrightarrow>
         isRequired h a \<or>
         (\<exists>g. isGroup h ?fs requiredAsGroupAnnotation g \<and>
              hasSetMember h ?fs requiredAsGroupAnnotation g \<and> memberOf h ?fs g a) \<or>
         (\<exists>g. isGroup h ?fs oneRequiredAnnotation g \<and>
              \<not> hasSetMember h ?fs oneRequiredAnnotation g \<and> memberOf h ?fs g a)) \<and>
      (\<forall>a. Hidden (h' a) \<longleftrightarrow>
         Hidden (h a) \<or>
         (\<exists>g s. isGroup h ?fs mutuallyExclusiveAnnotation g \<and>
              carries h ?fs mutuallyExclusiveAnnotation g s \<and> Changed (h s) \<and>
              (\<exists>n\<in>set (Split g). n \<noteq> Name (h s) \<and> Lookup h ?fs n = Some a))) \<and>
      (\<forall>a. Name (h' a) = Name (h a) \<and> Changed (h' a) = Changed (h a))"
    if d: "distinct (map (\<lambda>a. Name (h a)) (formal ?fs))"
  proof (intro conjI allI)
    fix a
    have "isRequired h' a \<longleftrightarrow> isRequired ?h2 a"
      using fr3 by (simp add: hideFrame_def isRequired_def)
    also have "\<dots> \<longleftrightarrow> isRequired ?h1 a \<or>
        (\<exists>g st. (g, st) \<in> set ?O \<and> \<not> (\<exists>m. (m, True) \<in> set st) \<and>
           (\<exists>n\<in>set (Split g). Lookup h ?fs n = Some a))"
      unfolding oneRequiredGroupsLoop_exact lk1 ..
    also have "\<dots> \<longleftrightarrow> (isRequired h a \<or>
        (\<exists>g st. (g, st) \<in> set ?G \<and> (\<exists>m. (m, True) \<in> set st) \<and>
           (\<exists>n\<in>set (Split g). Lookup h ?fs n = Some a))) \<or>
        (\<exists>g st. (g, st) \<in> set ?O \<and> \<not> (\<exists>m. (m, True) \<in> set st) \<and>
           (\<exists>n\<in>set (Split g). Lookup h ?fs n = Some a))"
      unfolding requiredGroupsLoop_exact ..
    also have "\<dots> \<longleftrightarrow> (isRequired h a \<or>
        (\<exists>g. isGroup h ?fs requiredAsGroupAnnotation g \<and>
             hasSetMember h ?fs requiredAsGroupAnnotation g \<and> memberOf h ?fs g a)) \<or>
        (\<exists>g. isGroup h ?fs oneRequiredAnnotation g \<and>
             \<not> hasSetMember h ?fs oneRequiredAnnotation g \<and> memberOf h ?fs g a)"
      unfolding entries_with_set_member[OF d] entries_without_set_member[OF d] memberOf_def ..
    finally show "isRequired h' a \<longleftrightarrow>
         isRequired h a \<or>
         (\<exists>g. isGroup h ?fs requiredAsGroupAnnotation g \<and>
              hasSetMember h ?fs requiredAsGroupAnnotation g \<and> memberOf h ?fs g a) \<or>
         (\<exists>g. isGroup h ?fs oneRequiredAnnotation g \<and>
              \<not> hasSetMember h ?fs oneRequiredAnnotation g \<and> memberOf h ?fs g a)"
      by blast
  next
    fix a
    have "Hidden (h' a) \<longleftrightarrow>
        Hidden (h a) \<or>
        (\<exists>g st m n. (g, st) \<in> set ?M \<and> (m, True) \<in> set st \<and> n \<in> set (Split g) \<and>
                   n \<noteq> m \<and> Lookup h ?fs n = Some a)"
      using hid[rule_format, of a] fr12 by (simp add: lk2 markFrame_def)
    then show "Hidden (h' a) \<longleftrightarrow>
         Hidden (h a) \<or>
         (\<exists>g s. isGroup h ?fs mutuallyExclusiveAnnotation g \<and>
              carries h ?fs mutuallyExclusiveAnnotation g s \<and> Changed (h s) \<and>
              (\<exists>n\<in>set (Split g). n \<noteq> Name (h s) \<and> Lookup h ?fs n = Some a))"
      unfolding entries_hiding[OF d] .
  next
    fix a
    show "Name (h' a) = Name (h a)" using fr12 fr3 by (simp add: markFrame_def hideFrame_def)
  next
    fix a
    show "Changed (h' a) = Changed (h a)" using fr12 fr3 by (simp add: markFrame_def hideFrame_def)
  qed
  show ?thesis using False res chars by simp
qed

text \<open>The example command of the completion pass, group by group.\<close>

lemma comp_carries:
  "carries compHeap (flags compCmd) requiredAsGroupAnnotation g a \<longleftrightarrow>
     g = ''a b'' \<and> (a = 0 \<or> a = 1)"
  "carries compHeap (flags compCmd) oneRequiredAnnotation g a \<longleftrightarrow>
     g = ''p q'' \<and> (a = 4 \<or> a = 5)"
  "carries compHeap (flags compCmd) mutuallyExclusiveAnnotation g a \<longleftrightarrow>
     g = ''x y'' \<and> (a = 2 \<or> a = 3)"
  by (auto simp: carries_def annotationOf_def requiredAsGroupAnnotation_def
      oneRequiredAnnotation_def mutuallyExclusiveAnnotation_def completion_example_defs
      split: if_splits)

lemma comp_lookup_all:
  "Lookup compHeap (flags compCmd) n =
     (if n = ''a'' then Some 0 else if n = ''b'' then Some 1 else if n = ''x'' then Some 2
      else if n = ''y'' then Some 3 else if n = ''p'' then Some 4 else if n = ''q'' then Some 5
      else None)"
  by (simp add: Lookup_def completion_example_defs)

lemma comp_isGroup:
  "isGroup compHeap (flags compCmd) requiredAsGroupAnnotation g \<longleftrightarrow> g = ''a b''"
  "isGroup compHeap (flags compCmd) oneRequiredAnnotation g \<longleftrightarrow> g = ''p q''"
  "isGroup compHeap (flags compCmd) mutuallyExclusiveAnnotation g \<longleftrightarrow> g = ''x y''"
  unfolding isGroup_def comp_carries by (auto simp: comp_lookup_all)

lemma comp_changed: "Changed (compHeap s) \<longleftrightarrow> s = 0 \<or> s = 2"
  by (simp add: completion_example_defs)

lemma comp_set:
  "hasSetMember compHeap (flags compCmd) requiredAsGroupAnnotation ''a b''"
  "\<not> hasSetMember compHeap (flags compCmd) oneRequiredAnnotation ''p q''"
  unfolding hasSetMember_def comp_carries comp_changed by auto

lemma comp_members:
  "memberOf compHeap (flags compCmd) ''a b'' a \<longleftrightarrow> a = 0 \<or> a = 1"
  "memberOf compHeap (flags compCmd) ''p q'' a \<longleftrightarrow> a = 4 \<or> a = 5"
  unfolding memberOf_def by (auto simp: comp_lookup_all)


lemma comp_distinct:
  "\<not> DisableFlagParsing compCmd"
  "distinct (map (\<lambda>a. Name (compHeap a)) (formal (flags compCmd)))"
  by (simp_all add: completion_example_defs)

lemma comp_required:
  "(\<exists>g. isGroup compHeap (flags compCmd) requiredAsGroupAnnotation g \<and>
        hasSetMember compHeap (flags compCmd) requiredAsGroupAnnotation g \<and>
        memberOf compHeap (flags compCmd) g a) \<longleftrightarrow> a = 0 \<or> a = 1"
  unfolding comp_isGroup using comp_set(1) comp_members(1) by auto

lemma comp_one:
  "(\<exists>g. isGroup compHeap (flags compCmd) oneRequiredAnnotation g \<and>
        \<not> hasSetMember compHeap (flags compCmd) oneRequiredAnnotation g \<and>
        memberOf compHeap (flags compCmd) g a) \<longleftrightarrow> a = 4 \<or> a = 5"
  unfolding comp_isGroup using comp_set(2) comp_members(2) by auto

lemma comp_hidden:
  "(\<exists>g s. isGroup compHeap (flags compCmd) mutuallyExclusiveAnnotation g \<and>
        carries compHeap (flags compCmd) mutuallyExclusiveAnnotation g s \<and>
        Changed (compHeap s) \<and>
        (\<exists>n\<in>set (Split g). n \<noteq> Name (compHeap s) \<and>
            Lookup compHeap (flags compCmd) n = Some a)) \<longleftrightarrow> a = 3"
proof -
  have n2: "Name (compHeap 2) = ''x''" by (simp add: completion_example_defs)
  have "(\<exists>g s. isGroup compHeap (flags compCmd) mutuallyExclusiveAnnotation g \<and>
        carries compHeap (flags compCmd) mutuallyExclusiveAnnotation g s \<and>
        Changed (compHeap s) \<and>
        (\<exists>n\<in>set (Split g). n \<noteq> Name (compHeap s) \<and>
            Lookup compHeap (flags compCmd) n = Some a)) \<longleftrightarrow>
     (\<exists>n\<in>set (Split ''x y''). n \<noteq> Name (compHeap 2) \<and>
            Lookup compHeap (flags compCmd) n = Some a)"
    unfolding comp_isGroup comp_carries comp_changed by auto
  also have "\<dots> \<longleftrightarrow> a = 3" unfolding n2 by (auto simp: comp_lookup_all)
  finally show ?thesis .
qed

lemma comp_before: "\<not> isRequired compHeap a" "\<not> Hidden (compHeap a)"
  by (simp_all add: isRequired_def completion_example_defs)

lemma or_distinct:
  "\<not> DisableFlagParsing orCmd"
  "distinct (map (\<lambda>a. Name (orHeap a)) (formal (flags orCmd)))"
  by (simp_all add: completion_example_defs)

lemma or_carries:
  "\<not> carries orHeap (flags orCmd) requiredAsGroupAnnotation g a"
  "carries orHeap (flags orCmd) oneRequiredAnnotation g a \<longleftrightarrow> g = ''a b'' \<and> (a = 0 \<or> a = 1)"
  by (auto simp: carries_def annotationOf_def requiredAsGroupAnnotation_def
      oneRequiredAnnotation_def completion_example_defs split: if_splits)

lemma or_set: "hasSetMember orHeap (flags orCmd) oneRequiredAnnotation ''a b''"
proof -
  have "Changed (orHeap 0)" by (simp add: completion_example_defs)
  then show ?thesis by (auto simp: hasSetMember_def or_carries)
qed

lemma or_none:
  "\<not> (\<exists>g. isGroup orHeap (flags orCmd) requiredAsGroupAnnotation g \<and>
        hasSetMember orHeap (flags orCmd) requiredAsGroupAnnotation g \<and>
        memberOf orHeap (flags orCmd) g a)"
  "\<not> (\<exists>g. isGroup orHeap (flags orCmd) oneRequiredAnnotation g \<and>
        \<not> hasSetMember orHeap (flags orCmd) oneRequiredAnnotation g \<and>
        memberOf orHeap (flags orCmd) g a)"
proof -
  show "\<not> (\<exists>g. isGroup orHeap (flags orCmd) requiredAsGroupAnnotation g \<and>
        hasSetMember orHeap (flags orCmd) requiredAsGroupAnnotation g \<and>
        memberOf orHeap (flags orCmd) g a)"
    by (simp add: isGroup_def or_carries)
  show "\<not> (\<exists>g. isGroup orHeap (flags orCmd) oneRequiredAnnotation g \<and>
        \<not> hasSetMember orHeap (flags orCmd) oneRequiredAnnotation g \<and>
        memberOf orHeap (flags orCmd) g a)"
    using or_set by (auto simp: isGroup_def or_carries)
qed

lemma or_before: "\<not> isRequired orHeap a"
  by (simp add: isRequired_def completion_example_defs)

theorem completion_pass_marks_and_hides_witness:
  "\<not> DisableFlagParsing compCmd \<and>
   distinct (map (\<lambda>a. Name (compHeap a)) (formal (flags compCmd))) \<and>
   (\<exists>h'. enforceFlagGroupsForCompletion compHeap compCmd = Inr h' \<and>
      (\<forall>a. isRequired h' a \<longleftrightarrow> a = 0 \<or> a = 1 \<or> a = 4 \<or> a = 5) \<and>
      (\<forall>a. Hidden (h' a) \<longleftrightarrow> a = 3)) \<and>
   hasSetMember orHeap (flags orCmd) oneRequiredAnnotation ''a b'' \<and>
   (\<exists>h'. enforceFlagGroupsForCompletion orHeap orCmd = Inr h' \<and> (\<forall>a. \<not> isRequired h' a))"
proof -
  note comp = completion_pass_marks_and_hides[of compHeap compCmd]
  note orr = completion_pass_marks_and_hides[of orHeap orCmd]
  from comp obtain h' where r: "enforceFlagGroupsForCompletion compHeap compCmd = Inr h'"
    by (elim conjE exE)
  from comp have all: "\<forall>h'. enforceFlagGroupsForCompletion compHeap compCmd = Inr h' \<and>
         \<not> DisableFlagParsing compCmd \<and>
         distinct (map (\<lambda>a. Name (compHeap a)) (formal (flags compCmd))) \<longrightarrow>
      (\<forall>a. isRequired h' a \<longleftrightarrow>
         isRequired compHeap a \<or>
         (\<exists>g. isGroup compHeap (flags compCmd) requiredAsGroupAnnotation g \<and>
              hasSetMember compHeap (flags compCmd) requiredAsGroupAnnotation g \<and>
              memberOf compHeap (flags compCmd) g a) \<or>
         (\<exists>g. isGroup compHeap (flags compCmd) oneRequiredAnnotation g \<and>
              \<not> hasSetMember compHeap (flags compCmd) oneRequiredAnnotation g \<and>
              memberOf compHeap (flags compCmd) g a)) \<and>
      (\<forall>a. Hidden (h' a) \<longleftrightarrow>
         Hidden (compHeap a) \<or>
         (\<exists>g s. isGroup compHeap (flags compCmd) mutuallyExclusiveAnnotation g \<and>
              carries compHeap (flags compCmd) mutuallyExclusiveAnnotation g s \<and>
              Changed (compHeap s) \<and>
              (\<exists>n\<in>set (Split g). n \<noteq> Name (compHeap s) \<and>
                  Lookup compHeap (flags compCmd) n = Some a))) \<and>
      (\<forall>a. Name (h' a) = Name (compHeap a) \<and> Changed (h' a) = Changed (compHeap a))"
    by (elim conjE)
  from all[rule_format, of h'] r comp_distinct have
    1: "\<forall>a. isRequired h' a \<longleftrightarrow> a = 0 \<or> a = 1 \<or> a = 4 \<or> a = 5" and
    2: "\<forall>a. Hidden (h' a) \<longleftrightarrow> a = 3"
    unfolding comp_required comp_one comp_hidden by (simp_all add: comp_before)
  from orr obtain h2 where r2: "enforceFlagGroupsForCompletion orHeap orCmd = Inr h2"
    by (elim conjE exE)
  from orr have all2: "\<forall>h'. enforceFlagGroupsForCompletion orHeap orCmd = Inr h' \<and>
         \<not> DisableFlagParsing orCmd \<and>
         distinct (map (\<lambda>a. Name (orHeap a)) (formal (flags orCmd))) \<longrightarrow>
      (\<forall>a. isRequired h' a \<longleftrightarrow>
         isRequired orHeap a \<or>
         (\<exists>g. isGroup orHeap (flags orCmd) requiredAsGroupAnnotation g \<and>
              hasSetMember orHeap (flags orCmd) requiredAsGroupAnnotation g \<and>
              memberOf orHeap (flags orCmd) g a) \<or>
         (\<exists>g. isGroup orHeap (flags orCmd) oneRequiredAnnotation g \<and>
              \<not> hasSetMember orHeap (flags orCmd) oneRequiredAnnotation g \<and>
              memberOf orHeap (flags orCmd) g a)) \<and>
      (\<forall>a. Hidden (h' a) \<longleftrightarrow>
         Hidden (orHeap a) \<or>
         (\<exists>g s. isGroup orHeap (flags orCmd) mutuallyExclusiveAnnotation g \<and>
              carries orHeap (flags orCmd) mutuallyExclusiveAnnotation g s \<and>
              Changed (orHeap s) \<and>
              (\<exists>n\<in>set (Split g). n \<noteq> Name (orHeap s) \<and>
                  Lookup orHeap (flags orCmd) n = Some a))) \<and>
      (\<forall>a. Name (h' a) = Name (orHeap a) \<and> Changed (h' a) = Changed (orHeap a))"
    by (elim conjE)
  from all2[rule_format, of h2] r2 or_distinct have 3: "\<forall>a. \<not> isRequired h2 a"
    using or_none or_before by simp
  from comp_distinct r 1 2 or_set r2 3 show ?thesis by blast
qed

end
